theory Spec2Isabelle
  imports Complex_Main "HOL-Library.Extended_Nat"
begin

section \<open>Kernel UCBVI on representative states: the model\<close>

text \<open>
  A shallow embedding of \<^verbatim>\<open>rlberry/agents/kernel_based/rs_kernel_ucbvi.py\<close>.

  Numbers: the source computes in 64-bit floating point; the model computes in the reals,
  so rounding is abstracted away. The two places where a float operation leaves the reals
  are kept as branches: a scalar division by zero raises \<^verbatim>\<open>ZeroDivisionError\<close> (the
  jitted functions use the Python error model), and the square root of a negative number
  is the value \<^verbatim>\<open>nan\<close>.

  Arrays are lists (of lists); an index outside an array is \<^verbatim>\<open>IndexError\<close>, a negative
  index counts from the end, as in the source language.
\<close>

datatype error = IndexError | ValueError | TypeError | ZeroDivisionError | NotImplementedError
  | AssertionError

text \<open>A float that may be \<^verbatim>\<open>nan\<close>.\<close>

datatype fval = Val real | NaN

text \<open>Sequencing of fallible steps: the first raise ends the computation.\<close>

definition bnd :: "error + 'a \<Rightarrow> ('a \<Rightarrow> error + 'b) \<Rightarrow> error + 'b" where
  "bnd m f = (case m of Inl e \<Rightarrow> Inl e | Inr x \<Rightarrow> f x)"

text \<open>Index normalisation: \<open>a[i]\<close> on an axis of size \<open>len\<close>.\<close>

definition py_index :: "nat \<Rightarrow> int \<Rightarrow> error + nat" where
  "py_index len i =
     (if 0 \<le> i \<and> i < int len then Inr (nat i)
      else if i < 0 \<and> - int len \<le> i then Inr (nat (int len + i))
      else Inl IndexError)"

subsection \<open>compute_bonus\<close>

text \<open>
  \<^verbatim>\<open>
  def compute_bonus(sum_weights, beta, bonus_scale_factor, v_max, bonus_type):
      n = beta + sum_weights
      if bonus_type == "simplified_bernstein":
          return bonus_scale_factor * np.sqrt(1.0/n) + (1+beta)*(v_max)/n
      else:
          raise NotImplementedError("Error: unknown bonus type.")
  \<close>
\<close>

definition compute_bonus :: "real \<Rightarrow> real \<Rightarrow> real \<Rightarrow> real \<Rightarrow> string \<Rightarrow> error + fval" where
  "compute_bonus sum_weights beta bonus_scale_factor v_max bonus_type =
     (let n = beta + sum_weights in
      if bonus_type = ''simplified_bernstein'' then
        (if n = 0 then Inl ZeroDivisionError
         else if n < 0 then Inr NaN
         else Inr (Val (bonus_scale_factor * sqrt (1 / n) + (1 + beta) * v_max / n)))
      else Inl NotImplementedError)"

subsection \<open>map_to_representative\<close>

text \<open>
  \<^verbatim>\<open>
  def map_to_representative(state, lp_metric, representative_states, n_representatives,
                            min_dist, scaling, accept_new_repr):
      dist_to_closest = np.inf
      argmin = -1
      for ii in range(n_representatives):
          dist = metric_lp(state, representative_states[ii, :], lp_metric, scaling)
          if dist < dist_to_closest:
              dist_to_closest = dist
              argmin = ii

      max_representatives = representative_states.shape[0]
      if dist_to_closest > min_dist and n_representatives < max_representatives and accept_new_repr:
          new_index = n_representatives
          representative_states[new_index, :] = state
          return new_index
      return argmin
  \<close>
  The metric \<^verbatim>\<open>metric_lp\<close> lives in another module; it is a parameter of the model, with
  the source's argument order \<^verbatim>\<open>metric_lp(x, y, lp_metric, scaling)\<close>. The exponent is a
  natural number or infinity.
\<close>

type_synonym state = "real list"
type_synonym metric = "state \<Rightarrow> state \<Rightarrow> enat \<Rightarrow> real list \<Rightarrow> real"

text \<open>
  \<open>dist_to_closest\<close> starts at \<^verbatim>\<open>np.inf\<close>: \<open>None\<close> stands for infinity, and the two
  comparisons of the source are written out for it.
\<close>

definition lt_closest :: "real \<Rightarrow> real option \<Rightarrow> bool" where
  "lt_closest dst dist_to_closest = (case dist_to_closest of None \<Rightarrow> True | Some d \<Rightarrow> dst < d)"

definition closest_gt :: "real option \<Rightarrow> real \<Rightarrow> bool" where
  "closest_gt dist_to_closest min_dist = (case dist_to_closest of None \<Rightarrow> True | Some d \<Rightarrow> d > min_dist)"

text \<open>
  The scan \<^verbatim>\<open>for ii in range(n_representatives)\<close>: \<open>scan_repr \<dots> k\<close> is the pair
  \<open>(dist_to_closest, argmin)\<close> after the iterations \<open>ii = 0, \<dots>, k - 1\<close>.
\<close>

primrec scan_repr :: "metric \<Rightarrow> state \<Rightarrow> enat \<Rightarrow> state list \<Rightarrow> real list \<Rightarrow> nat
    \<Rightarrow> error + (real option \<times> int)" where
  "scan_repr metric_lp state lp_metric representative_states scaling 0 = Inr (None, - 1)"
| "scan_repr metric_lp state lp_metric representative_states scaling (Suc ii) =
     bnd (scan_repr metric_lp state lp_metric representative_states scaling ii)
       (\<lambda>(dist_to_closest, argmin).
          if ii < length representative_states then
            (let dst = metric_lp state (representative_states ! ii) lp_metric scaling in
             if lt_closest dst dist_to_closest then Inr (Some dst, int ii)
             else Inr (dist_to_closest, argmin))
          else Inl IndexError)"

text \<open>
  The function returns the index and the (possibly extended) array of representative
  states, which the source mutates in place.
\<close>

definition map_to_representative :: "metric \<Rightarrow> state \<Rightarrow> enat \<Rightarrow> state list \<Rightarrow> nat \<Rightarrow> real
    \<Rightarrow> real list \<Rightarrow> bool \<Rightarrow> error + (int \<times> state list)" where
  "map_to_representative metric_lp state lp_metric representative_states n_representatives
       min_dist scaling accept_new_repr =
     bnd (scan_repr metric_lp state lp_metric representative_states scaling n_representatives)
       (\<lambda>(dist_to_closest, argmin).
          let max_representatives = length representative_states in
          if closest_gt dist_to_closest min_dist \<and> n_representatives < max_representatives
             \<and> accept_new_repr
          then (let new_index = n_representatives in
                Inr (int new_index, representative_states[new_index := state]))
          else Inr (argmin, representative_states))"

subsection \<open>update_model\<close>

text \<open>
  \<^verbatim>\<open>
  def update_model(repr_state, action, repr_next_state, reward, n_representatives, repr_states,
                   lp_metric, scaling, bandwidth, bonus_scale_factor, beta, v_max, bonus_type,
                   kernel_type, N_sa, B_sa, P_hat, R_hat):
      dirac_next_s = np.zeros(n_representatives)
      dirac_next_s[repr_next_state] = 1.0

      for u_repr_state in range(n_representatives):
          dist = metric_lp(repr_states[repr_state, :], repr_states[u_repr_state, :],
                           lp_metric, scaling)
          weight = kernel_func(dist/bandwidth, kernel_type=kernel_type)

          prev_N_sa = beta + N_sa[u_repr_state, action]  # regularization added here
          current_N_sa = prev_N_sa + weight

          N_sa[u_repr_state, action] += weight

          P_hat[u_repr_state, action, :n_representatives] = \
              dirac_next_s*weight / current_N_sa + \
              (prev_N_sa/current_N_sa)*P_hat[u_repr_state, action, :n_representatives]

          R_hat[u_repr_state, action] = weight*reward/current_N_sa + \
              (prev_N_sa/current_N_sa)*R_hat[u_repr_state, action]

          B_sa[u_repr_state, action] = compute_bonus(N_sa[u_repr_state, action], beta,
                                                     bonus_scale_factor, v_max, bonus_type)
  \<close>
  The kernel \<^verbatim>\<open>kernel_func(z, kernel_type)\<close> lives in another module and is a parameter
  too; it may refuse its \<open>kernel_type\<close>. The four tables are passed in and returned, in
  the order \<open>(N_sa, B_sa, P_hat, R_hat)\<close>. The action is the result of an \<^verbatim>\<open>argmax\<close>, a
  natural number.
\<close>

type_synonym kernel = "real \<Rightarrow> string \<Rightarrow> error + real"
type_synonym table = "real list list"
type_synonym tables = "table \<times> fval list list \<times> real list list list \<times> table"

text \<open>The cell \<open>t[i, j]\<close> of a two-dimensional array, read and written.\<close>

definition in_table :: "'a list list \<Rightarrow> nat \<Rightarrow> nat \<Rightarrow> bool" where
  "in_table t i j = (i < length t \<and> j < length (t ! i))"

definition set_cell :: "'a list list \<Rightarrow> nat \<Rightarrow> nat \<Rightarrow> 'a \<Rightarrow> 'a list list" where
  "set_cell t i j v = t[i := (t ! i)[j := v]]"

text \<open>
  One iteration of \<^verbatim>\<open>for u_repr_state in range(n_representatives)\<close>, in the order of the
  source: the weight, the two masses, then the writes to \<open>N_sa\<close>, \<open>P_hat\<close>, \<open>R_hat\<close>
  and \<open>B_sa\<close>. The quotient \<open>prev_N_sa / current_N_sa\<close> is a division of scalars, so
  a zero \<open>current_N_sa\<close> raises. The slice \<open>P_hat[u, a, :n]\<close> is combined with and
  written from an array of size \<open>n\<close>, so a shorter row is a shape error. (Broadcasting
  would let a single case through, \<open>n = 1\<close> against a row of length \<open>0\<close>; the rows of an
  agent have \<open>max_repr \<ge> n\<close> entries, and the model does not single that case out.)
\<close>

definition update_row :: "metric \<Rightarrow> kernel \<Rightarrow> int \<Rightarrow> nat \<Rightarrow> real list \<Rightarrow> real \<Rightarrow> nat \<Rightarrow> state list
    \<Rightarrow> enat \<Rightarrow> real list \<Rightarrow> real \<Rightarrow> real \<Rightarrow> real \<Rightarrow> real \<Rightarrow> string \<Rightarrow> string
    \<Rightarrow> nat \<Rightarrow> tables \<Rightarrow> error + tables" where
  "update_row metric_lp kernel_func repr_state action dirac_next_s reward n_representatives
       repr_states lp_metric scaling bandwidth bonus_scale_factor beta v_max bonus_type
       kernel_type u_repr_state tabs =
     (case tabs of (N_sa, B_sa, P_hat, R_hat) \<Rightarrow>
      bnd (py_index (length repr_states) repr_state) (\<lambda>rs.
      if \<not> u_repr_state < length repr_states then Inl IndexError
      else if bandwidth = 0 then Inl ZeroDivisionError
      else
       (let dst = metric_lp (repr_states ! rs) (repr_states ! u_repr_state) lp_metric scaling in
        bnd (kernel_func (dst / bandwidth) kernel_type) (\<lambda>weight.
        if \<not> in_table N_sa u_repr_state action then Inl IndexError
        else
        let prev_N_sa = beta + N_sa ! u_repr_state ! action;
            current_N_sa = prev_N_sa + weight;
            N_sa' = set_cell N_sa u_repr_state action (N_sa ! u_repr_state ! action + weight)
        in
        if current_N_sa = 0 then Inl ZeroDivisionError
        else if \<not> in_table P_hat u_repr_state action then Inl IndexError
        else if \<not> n_representatives \<le> length (P_hat ! u_repr_state ! action) then Inl ValueError
        else if \<not> in_table R_hat u_repr_state action then Inl IndexError
        else
         (let row = P_hat ! u_repr_state ! action;
              P_hat' = set_cell P_hat u_repr_state action
                 (map (\<lambda>j. dirac_next_s ! j * weight / current_N_sa
                            + (prev_N_sa / current_N_sa) * row ! j) [0..<n_representatives]
                  @ drop n_representatives row);
              R_hat' = set_cell R_hat u_repr_state action
                 (weight * reward / current_N_sa
                  + (prev_N_sa / current_N_sa) * R_hat ! u_repr_state ! action)
          in
          bnd (compute_bonus (N_sa' ! u_repr_state ! action) beta bonus_scale_factor v_max
                 bonus_type) (\<lambda>b.
          if \<not> in_table B_sa u_repr_state action then Inl IndexError
          else Inr (N_sa', set_cell B_sa u_repr_state action b, P_hat', R_hat')))))))"

text \<open>\<open>update_loop \<dots> tabs k\<close>: the tables after the iterations \<open>u = 0, \<dots>, k - 1\<close>.\<close>

primrec update_loop :: "metric \<Rightarrow> kernel \<Rightarrow> int \<Rightarrow> nat \<Rightarrow> real list \<Rightarrow> real \<Rightarrow> nat \<Rightarrow> state list
    \<Rightarrow> enat \<Rightarrow> real list \<Rightarrow> real \<Rightarrow> real \<Rightarrow> real \<Rightarrow> real \<Rightarrow> string \<Rightarrow> string
    \<Rightarrow> tables \<Rightarrow> nat \<Rightarrow> error + tables" where
  "update_loop metric_lp kernel_func repr_state action dirac_next_s reward n_representatives
       repr_states lp_metric scaling bandwidth bonus_scale_factor beta v_max bonus_type
       kernel_type tabs 0 = Inr tabs"
| "update_loop metric_lp kernel_func repr_state action dirac_next_s reward n_representatives
       repr_states lp_metric scaling bandwidth bonus_scale_factor beta v_max bonus_type
       kernel_type tabs (Suc u) =
     bnd (update_loop metric_lp kernel_func repr_state action dirac_next_s reward
            n_representatives repr_states lp_metric scaling bandwidth bonus_scale_factor beta
            v_max bonus_type kernel_type tabs u)
         (update_row metric_lp kernel_func repr_state action dirac_next_s reward
            n_representatives repr_states lp_metric scaling bandwidth bonus_scale_factor beta
            v_max bonus_type kernel_type u)"

definition update_model :: "metric \<Rightarrow> kernel \<Rightarrow> int \<Rightarrow> nat \<Rightarrow> int \<Rightarrow> real \<Rightarrow> nat \<Rightarrow> state list
    \<Rightarrow> enat \<Rightarrow> real list \<Rightarrow> real \<Rightarrow> real \<Rightarrow> real \<Rightarrow> real \<Rightarrow> string \<Rightarrow> string
    \<Rightarrow> table \<Rightarrow> fval list list \<Rightarrow> real list list list \<Rightarrow> table \<Rightarrow> error + tables" where
  "update_model metric_lp kernel_func repr_state action repr_next_state reward n_representatives
       repr_states lp_metric scaling bandwidth bonus_scale_factor beta v_max bonus_type
       kernel_type N_sa B_sa P_hat R_hat =
     bnd (py_index n_representatives repr_next_state) (\<lambda>nxt.
       let dirac_next_s = (replicate n_representatives 0)[nxt := 1] in
       update_loop metric_lp kernel_func repr_state action dirac_next_s reward
         n_representatives repr_states lp_metric scaling bandwidth bonus_scale_factor beta
         v_max bonus_type kernel_type (N_sa, B_sa, P_hat, R_hat) n_representatives)"

subsection \<open>The agent\<close>

text \<open>
  The collaborators of the agent that live outside this file: the metric, the kernel, the
  environment (\<^verbatim>\<open>reset()\<close> and \<^verbatim>\<open>step(action)\<close>, acting on an environment state of type
  \<open>'e\<close>; the \<^verbatim>\<open>info\<close> component of a step is dropped) and the two backward-induction
  solvers. \<^verbatim>\<open>backward_induction(R, P, horizon, gamma)\<close> returns the pair \<open>(Q, V)\<close>;
  \<^verbatim>\<open>backward_induction_in_place(Q, V, R, P, horizon, gamma, vmax)\<close> overwrites the two
  views it is given and is modelled as returning their new contents.
\<close>

type_synonym qtable = "real list list list"

record 'e world =
  metric_lp :: metric
  kernel_func :: kernel
  env_reset :: "'e \<Rightarrow> state \<times> 'e"
  env_step :: "'e \<Rightarrow> nat \<Rightarrow> (state \<times> real \<times> bool) \<times> 'e"
  backward_induction :: "table \<Rightarrow> real list list list \<Rightarrow> nat \<Rightarrow> real \<Rightarrow> qtable \<times> table"
  backward_induction_in_place :: "qtable \<Rightarrow> table \<Rightarrow> fval list list \<Rightarrow> real list list list
      \<Rightarrow> nat \<Rightarrow> real \<Rightarrow> real \<Rightarrow> qtable \<times> table"

text \<open>
  The attributes of \<^verbatim>\<open>RSKernelUCBVIAgent\<close>. \<open>Q\<close> and \<open>Q_policy\<close> may be \<^verbatim>\<open>None\<close>.
  The attributes \<^verbatim>\<open>_rewards\<close> and \<^verbatim>\<open>_cumul_rewards\<close> lose their leading underscore, as do
  the methods below. The logging attributes, which only steer what is printed and when,
  are left out.
\<close>

record 'e agent =
  env :: 'e
  n_episodes :: nat
  gamma :: real
  horizon :: nat
  lp_metric :: enat
  kernel_type :: string
  bandwidth :: real
  min_dist :: real
  bonus_scale_factor :: real
  beta :: real
  bonus_type :: string
  state_dim :: nat
  scaling :: "real list"
  v_max :: real
  max_repr :: nat
  M :: nat
  A :: nat
  episode :: nat
  representative_states :: "state list"
  N_sa :: table
  B_sa :: "fval list list"
  R_hat :: table
  P_hat :: "real list list list"
  Q :: "qtable option"
  V :: table
  Q_policy :: "qtable option"
  rewards :: "real list"
  cumul_rewards :: "real list"

text \<open>
  \<^verbatim>\<open>reset\<close>: every table is allocated at capacity \<open>max_repr\<close> and zeroed, the bonus table
  is filled with \<open>v_max\<close>, and \<open>Q_policy\<close> is \<^verbatim>\<open>None\<close>. The constructor ends with a call of
  \<^verbatim>\<open>reset\<close>.
\<close>

definition reset :: "'e agent \<Rightarrow> 'e agent" where
  "reset ag = ag\<lparr>
     M := 0,
     representative_states := replicate (max_repr ag) (replicate (state_dim ag) 0),
     N_sa := replicate (max_repr ag) (replicate (A ag) 0),
     B_sa := replicate (max_repr ag) (replicate (A ag) (Val (v_max ag * 1))),
     R_hat := replicate (max_repr ag) (replicate (A ag) 0),
     P_hat := replicate (max_repr ag) (replicate (A ag) (replicate (max_repr ag) 0)),
     V := replicate (horizon ag) (replicate (max_repr ag) 0),
     Q := Some (replicate (horizon ag) (replicate (max_repr ag) (replicate (A ag) 0))),
     Q_policy := None,
     episode := 0\<rparr>"

text \<open>
  \<^verbatim>\<open>
  def _map_to_repr(self, state, accept_new_repr=True):
      repr_state = map_to_representative(state, self.lp_metric, self.representative_states,
                                         self.M, self.min_dist, self.scaling, accept_new_repr)
      if repr_state == self.M:
          self.M += 1
      return repr_state
  \<close>
\<close>

definition map_to_repr :: "'e world \<Rightarrow> 'e agent \<Rightarrow> state \<Rightarrow> bool \<Rightarrow> error + (int \<times> 'e agent)" where
  "map_to_repr w ag state accept_new_repr =
     bnd (map_to_representative (metric_lp w) state (lp_metric ag) (representative_states ag)
            (M ag) (min_dist ag) (scaling ag) accept_new_repr)
       (\<lambda>(repr_state, reprs).
          let ag1 = ag\<lparr>representative_states := reprs\<rparr> in
          if repr_state = int (M ag1) then Inr (repr_state, ag1\<lparr>M := M ag1 + 1\<rparr>)
          else Inr (repr_state, ag1))"

definition update :: "'e world \<Rightarrow> 'e agent \<Rightarrow> state \<Rightarrow> nat \<Rightarrow> state \<Rightarrow> real \<Rightarrow> error + 'e agent" where
  "update w ag state action next_state reward =
     bnd (map_to_repr w ag state True) (\<lambda>(repr_state, ag1).
     bnd (map_to_repr w ag1 next_state True) (\<lambda>(repr_next_state, ag2).
     bnd (update_model (metric_lp w) (kernel_func w) repr_state action repr_next_state reward
            (M ag2) (representative_states ag2) (lp_metric ag2) (scaling ag2) (bandwidth ag2)
            (bonus_scale_factor ag2) (beta ag2) (v_max ag2) (bonus_type ag2) (kernel_type ag2)
            (N_sa ag2) (B_sa ag2) (P_hat ag2) (R_hat ag2))
       (\<lambda>(N_sa', B_sa', P_hat', R_hat').
          Inr (ag2\<lparr>N_sa := N_sa', B_sa := B_sa', P_hat := P_hat', R_hat := R_hat'\<rparr>))))"

text \<open>
  \<^verbatim>\<open>
  def policy(self, state, hh=0, **kwargs):
      assert self.Q_policy is not None
      repr_state = self._map_to_repr(state, False)
      if self.gamma == 1.0:
          return self.Q_policy[hh, repr_state, :].argmax()
      return self.Q_policy[0, repr_state, :].argmax()
  \<close>
  and \<^verbatim>\<open>_get_action\<close>, which is the same on \<open>Q\<close>. Reading \<open>Q[h, r, :]\<close> and taking
  \<^verbatim>\<open>argmax\<close>: the first index of the largest entry; the \<^verbatim>\<open>argmax\<close> of an empty row is an
  error.
\<close>

definition q_row :: "qtable \<Rightarrow> int \<Rightarrow> int \<Rightarrow> error + real list" where
  "q_row q h r =
     bnd (py_index (length q) h) (\<lambda>h'.
     bnd (py_index (length (q ! h')) r) (\<lambda>r'. Inr (q ! h' ! r')))"

definition argmax :: "real list \<Rightarrow> error + nat" where
  "argmax xs = (if xs = [] then Inl ValueError
                else Inr (length (takeWhile (\<lambda>x. x \<noteq> Max (set xs)) xs)))"

definition greedy :: "real \<Rightarrow> qtable \<Rightarrow> int \<Rightarrow> int \<Rightarrow> error + nat" where
  "greedy gam q hh repr_state =
     (if gam = 1 then bnd (q_row q hh repr_state) argmax
      else bnd (q_row q 0 repr_state) argmax)"

definition get_action :: "'e world \<Rightarrow> 'e agent \<Rightarrow> state \<Rightarrow> int \<Rightarrow> error + (nat \<times> 'e agent)" where
  "get_action w ag state hh =
     (case Q ag of None \<Rightarrow> Inl AssertionError
      | Some q \<Rightarrow>
          bnd (map_to_repr w ag state False) (\<lambda>(repr_state, ag1).
          bnd (greedy (gamma ag1) q hh repr_state) (\<lambda>a. Inr (a, ag1))))"

definition policy :: "'e world \<Rightarrow> 'e agent \<Rightarrow> state \<Rightarrow> int \<Rightarrow> error + (nat \<times> 'e agent)" where
  "policy w ag state hh =
     (case Q_policy ag of None \<Rightarrow> Inl AssertionError
      | Some q \<Rightarrow>
          bnd (map_to_repr w ag state False) (\<lambda>(repr_state, ag1).
          bnd (greedy (gamma ag1) q hh repr_state) (\<lambda>a. Inr (a, ag1))))"

text \<open>
  The array expressions of \<^verbatim>\<open>_run_episode\<close> and \<^verbatim>\<open>fit\<close>: \<open>R_hat[:M, :] + B_sa[:M, :]\<close>,
  \<open>P_hat[:M, :, :M]\<close>, the views \<open>Q[:, :M, :]\<close> and \<open>V[:, :M]\<close>, and the write through such
  a view.
\<close>

definition add_bonus :: "table \<Rightarrow> fval list list \<Rightarrow> fval list list" where
  "add_bonus R B = map2 (map2 (\<lambda>r b. case b of Val x \<Rightarrow> Val (r + x) | NaN \<Rightarrow> NaN)) R B"

definition active_P :: "nat \<Rightarrow> real list list list \<Rightarrow> real list list list" where
  "active_P m P = map (map (take m)) (take m P)"

definition view :: "nat \<Rightarrow> 'a list list \<Rightarrow> 'a list list" where
  "view m t = map (take m) t"

definition write_view :: "nat \<Rightarrow> 'a list list \<Rightarrow> 'a list list \<Rightarrow> 'a list list" where
  "write_view m new t = map2 (\<lambda>n old. n @ drop m old) new t"

text \<open>
  \<^verbatim>\<open>
  def _run_episode(self):
      episode_rewards = 0
      state = self.env.reset()
      for hh in range(self.horizon):
          action = self._get_action(state, hh)
          next_state, reward, done, _ = self.env.step(action)
          self._update(state, action, next_state, reward)
          state = next_state
          episode_rewards += reward

      backward_induction_in_place(self.Q[:, :self.M, :], self.V[:, :self.M],
                                  self.R_hat[:self.M, :] + self.B_sa[:self.M, :],
                                  self.P_hat[:self.M, :, :self.M],
                                  self.horizon, self.gamma, self.v_max)
      return episode_rewards
  \<close>
  The loop is a recursion on the triple (agent, current state, \<open>episode_rewards\<close>).
\<close>

primrec episode_steps :: "'e world \<Rightarrow> 'e agent \<times> state \<times> real \<Rightarrow> nat
    \<Rightarrow> error + ('e agent \<times> state \<times> real)" where
  "episode_steps w start 0 = Inr start"
| "episode_steps w start (Suc hh) =
     bnd (episode_steps w start hh) (\<lambda>(ag, state, episode_rewards).
     bnd (get_action w ag state (int hh)) (\<lambda>(action, ag1).
       case env_step w (env ag1) action of ((next_state, reward, done), e) \<Rightarrow>
         bnd (update w (ag1\<lparr>env := e\<rparr>) state action next_state reward) (\<lambda>ag2.
           Inr (ag2, next_state, episode_rewards + reward))))"

definition run_episode :: "'e world \<Rightarrow> 'e agent \<Rightarrow> error + (real \<times> 'e agent)" where
  "run_episode w ag =
     (case env_reset w (env ag) of (state, e) \<Rightarrow>
      bnd (episode_steps w (ag\<lparr>env := e\<rparr>, state, 0) (horizon ag)) (\<lambda>(ag1, _, episode_rewards).
        case Q ag1 of None \<Rightarrow> Inl TypeError
        | Some q \<Rightarrow>
           (case backward_induction_in_place w (view (M ag1) q) (view (M ag1) (V ag1))
                   (add_bonus (take (M ag1) (R_hat ag1)) (take (M ag1) (B_sa ag1)))
                   (active_P (M ag1) (P_hat ag1)) (horizon ag1) (gamma ag1) (v_max ag1)
            of (q', v') \<Rightarrow>
              Inr (episode_rewards,
                   ag1\<lparr>Q := Some (write_view (M ag1) q' q),
                       V := write_view (M ag1) v' (V ag1)\<rparr>))))"

text \<open>
  \<^verbatim>\<open>
  def fit(self, **kwargs):
      info = {}
      self._rewards = np.zeros(self.n_episodes)
      self._cumul_rewards = np.zeros(self.n_episodes)
      for kk in range(self.n_episodes):
          episode_rewards = self._run_episode()
          self._rewards[kk] = episode_rewards
          if kk > 0:
              self._cumul_rewards[kk] = episode_rewards + self._cumul_rewards[kk - 1]
          self.episode += 1
          self._logging()

      self.Q_policy, _ = backward_induction(self.R_hat[:self.M, :],
                                            self.P_hat[:self.M, :, :self.M],
                                            self.horizon, self.gamma)
      info["n_episodes"] = self.n_episodes
      info["episode_rewards"] = self._rewards
      return info
  \<close>
  The loop over the episodes, then the final solve. \<^verbatim>\<open>fit\<close> returns the dictionary
  \<open>info\<close>, here the pair of its two entries; \<^verbatim>\<open>_logging\<close> only prints.
\<close>

primrec fit_loop :: "'e world \<Rightarrow> 'e agent \<Rightarrow> nat \<Rightarrow> error + 'e agent" where
  "fit_loop w start 0 = Inr start"
| "fit_loop w start (Suc kk) =
     bnd (fit_loop w start kk) (\<lambda>ag.
     bnd (run_episode w ag) (\<lambda>(episode_rewards, ag1).
       if \<not> kk < length (rewards ag1) then Inl IndexError
       else
        (let ag2 = ag1\<lparr>rewards := (rewards ag1)[kk := episode_rewards]\<rparr> in
         if kk > 0 then
           (if \<not> kk < length (cumul_rewards ag2) then Inl IndexError
            else Inr (ag2\<lparr>cumul_rewards :=
                            (cumul_rewards ag2)[kk := episode_rewards + cumul_rewards ag2 ! (kk - 1)],
                          episode := episode ag2 + 1\<rparr>))
         else Inr (ag2\<lparr>episode := episode ag2 + 1\<rparr>))))"

definition fit :: "'e world \<Rightarrow> 'e agent \<Rightarrow> error + ((nat \<times> real list) \<times> 'e agent)" where
  "fit w ag =
     bnd (fit_loop w (ag\<lparr>rewards := replicate (n_episodes ag) 0,
                         cumul_rewards := replicate (n_episodes ag) 0\<rparr>) (n_episodes ag))
       (\<lambda>ag1.
          case backward_induction w (take (M ag1) (R_hat ag1)) (active_P (M ag1) (P_hat ag1))
                 (horizon ag1) (gamma ag1)
          of (q, _) \<Rightarrow>
            Inr ((n_episodes ag1, rewards ag1), ag1\<lparr>Q_policy := Some q\<rparr>))"

section \<open>Specification-side notions\<close>

text \<open>
  Following the spec's words, for comparison with the scan of the source: among the \<open>n\<close>
  active points with distances \<open>d 0, \<dots>, d (n - 1)\<close>, \<open>j\<close> is the minimum-distance one,
  the lowest index among ties.
\<close>

definition closest_repr :: "(nat \<Rightarrow> real) \<Rightarrow> nat \<Rightarrow> nat \<Rightarrow> bool" where
  "closest_repr d n j = (j < n \<and> (\<forall>i<n. d j \<le> d i) \<and> (\<forall>i<j. d j < d i))"

text \<open>
  The invariants of the tables. A reward table is bounded; a row of \<open>P_hat\<close> with
  accumulated weight \<open>Nv\<close> has non-negative entries, nothing beyond the \<open>n\<close> active
  representatives, and the mass \<open>Nv / (bet + Nv)\<close> on them, written without the
  division.
\<close>

definition bounded_table :: "real \<Rightarrow> real \<Rightarrow> table \<Rightarrow> bool" where
  "bounded_table lo hi R = list_all (list_all (\<lambda>x. lo \<le> x \<and> x \<le> hi)) R"

definition row_mass :: "real \<Rightarrow> nat \<Rightarrow> real \<Rightarrow> real list \<Rightarrow> bool" where
  "row_mass bet n Nv row =
     (0 \<le> Nv \<and> list_all (\<lambda>x. 0 \<le> x) row \<and> list_all (\<lambda>x. x = 0) (drop n row)
      \<and> (bet + Nv) * sum_list (take n row) = Nv)"

definition mass_inv :: "real \<Rightarrow> nat \<Rightarrow> table \<Rightarrow> real list list list \<Rightarrow> bool" where
  "mass_inv bet n N P = list_all2 (list_all2 (row_mass bet n)) N P"

text \<open>
  The shapes of a well-formed agent, as \<^verbatim>\<open>reset\<close> allocates them: \<open>max_repr\<close> rows of
  \<open>A\<close> entries, rows of \<open>max_repr\<close> entries in \<open>P_hat\<close>, and \<open>M\<close> within the
  capacity.
\<close>

definition shaped :: "nat \<Rightarrow> nat \<Rightarrow> 'a list list \<Rightarrow> bool" where
  "shaped r c t = (length t = r \<and> list_all (\<lambda>row. length row = c) t)"

definition wf_agent :: "'e agent \<Rightarrow> bool" where
  "wf_agent ag =
     (M ag \<le> max_repr ag \<and> length (representative_states ag) = max_repr ag
      \<and> shaped (max_repr ag) (A ag) (N_sa ag) \<and> shaped (max_repr ag) (A ag) (B_sa ag)
      \<and> shaped (max_repr ag) (A ag) (R_hat ag)
      \<and> length (P_hat ag) = max_repr ag \<and> list_all (shaped (A ag) (max_repr ag)) (P_hat ag))"

text \<open>
  A sequence of model updates: \<^verbatim>\<open>_update\<close> called on one observed transition
  \<open>(state, action, next_state, reward)\<close> after the other.
\<close>

primrec updates :: "'e world \<Rightarrow> 'e agent \<Rightarrow> (state \<times> nat \<times> state \<times> real) list \<Rightarrow> error + 'e agent" where
  "updates w ag [] = Inr ag"
| "updates w ag (t # ts) =
     (case t of (state, action, next_state, reward) \<Rightarrow>
        bnd (update w ag state action next_state reward) (\<lambda>ag1. updates w ag1 ts))"

text \<open>
  Modelled from the spec: \<^verbatim>\<open>metric_lp\<close> (module \<^verbatim>\<open>rlberry.agents.utils.metrics\<close>) is not
  among the sources. The spec gives the generalised Lp distance over element-wise-scaled
  vectors, \<open>(\<Sum>|(a_i - b_i) / scaling_i|^p)^(1/p)\<close>, with \<open>p = \<infinity>\<close> meaning the largest
  scaled absolute difference. It serves as a concrete instance of the metric parameter.
\<close>

definition metric_lp_spec :: metric where
  "metric_lp_spec x y p scal =
     (let diffs = map2 (\<lambda>(a, b) s. \<bar>(a - b) / s\<bar>) (zip x y) scal in
      case p of
        enat k \<Rightarrow> root k (sum_list (map (\<lambda>v. v ^ k) diffs))
      | \<infinity> \<Rightarrow> fold max diffs 0)"

text \<open>
  Modelled from the spec: \<^verbatim>\<open>kernel_func\<close> (module \<^verbatim>\<open>rlberry.agents.kernel_based.kernels\<close>)
  is not among the sources. The spec gives the \<^verbatim>\<open>epanechnikov\<close> kernel, weight
  \<open>max(0, 1 - d\<^sup>2)\<close> for \<open>d\<close> in \<open>[0, 1]\<close> and \<open>0\<close> elsewhere, and makes an unrecognised
  kernel type a fatal error.
\<close>

definition kernel_func_spec :: kernel where
  "kernel_func_spec z kt =
     (if kt = ''epanechnikov''
      then Inr (if 0 \<le> z \<and> z \<le> 1 then max 0 (1 - z * z) else 0)
      else Inl NotImplementedError)"

section \<open>A concrete instance\<close>

text \<open>
  A small world to run the model on: one-dimensional states with the metric and kernel
  above, an environment whose state is a step counter (it starts every episode at
  \<open>0.1\<close>, moves to \<open>0.9\<close> and back, and pays the reward \<open>1\<close> at every step), and
  stand-in solvers that copy the reward table they are given into every \<open>Q[h]\<close>, which
  is what backward induction computes for horizon \<open>1\<close>.
\<close>

definition demo_world :: "nat world" where
  "demo_world = \<lparr>
     metric_lp = metric_lp_spec,
     kernel_func = kernel_func_spec,
     env_reset = (\<lambda>e. ([1 / 10], 0)),
     env_step = (\<lambda>e a. (([if even e then 9 / 10 else 1 / 10], 1, False), Suc e)),
     backward_induction = (\<lambda>R P H g. (replicate H R, replicate H (map (\<lambda>row. fold max row 0) R))),
     backward_induction_in_place = (\<lambda>q v R P H g vm.
        (replicate H (map (map (\<lambda>b. case b of Val x \<Rightarrow> x | NaN \<Rightarrow> 0)) R), v))\<rparr>"

text \<open>
  An agent as the constructor leaves it: the attributes are declared, then \<^verbatim>\<open>reset\<close> is
  called. The capacity \<open>max_repr\<close>, the regularisation \<open>beta\<close> and the number of episodes
  are left open; the other options are fixed (undiscounted, horizon \<open>1\<close>, two actions,
  Chebyshev metric, \<open>min_dist = 0.5\<close>, bandwidth \<open>1\<close>, no bonus scaling).
\<close>

definition demo_agent :: "nat \<Rightarrow> real \<Rightarrow> nat \<Rightarrow> nat agent" where
  "demo_agent cap bet n = reset \<lparr>
     env = 0, n_episodes = n, gamma = 1, horizon = 1, lp_metric = \<infinity>,
     kernel_type = ''epanechnikov'', bandwidth = 1, min_dist = 1 / 2,
     bonus_scale_factor = 0, beta = bet, bonus_type = ''simplified_bernstein'',
     state_dim = 1, scaling = [1], v_max = 1, max_repr = cap, M = 0, A = 2, episode = 0,
     representative_states = [], N_sa = [], B_sa = [], R_hat = [], P_hat = [],
     Q = None, V = [], Q_policy = None, rewards = [], cumul_rewards = []\<rparr>"

section \<open>Properties\<close>

subsection \<open>Sequencing\<close>

lemma bnd_Inr [simp]: "bnd (Inr x) f = f x"
  by (simp add: bnd_def)

lemma bnd_Inl [simp]: "bnd (Inl e) f = Inl e"
  by (simp add: bnd_def)

lemma bnd_eq_Inr: "bnd m f = Inr y \<longleftrightarrow> (\<exists>x. m = Inr x \<and> f x = Inr y)"
  by (cases m) simp_all

lemma bnd_InrE:
  assumes "bnd m f = Inr y"
  obtains x where "m = Inr x" and "f x = Inr y"
  using assms by (cases m) simp_all

text \<open>The equations that evaluate the model on a concrete input.\<close>

lemmas ev = bnd_def py_index_def Let_def lt_closest_def closest_gt_def
  map_to_representative_def metric_lp_spec_def kernel_func_spec_def
  eval_nat_numeral in_table_def set_cell_def compute_bonus_def update_row_def update_model_def
  demo_world_def demo_agent_def reset_def map_to_repr_def update_def q_row_def argmax_def
  greedy_def get_action_def policy_def add_bonus_def active_P_def view_def write_view_def
  run_episode_def fit_def upt_rec

subsection \<open>The exploration bonus\<close>

lemma compute_bonus_value:
  "0 < bet + sw \<Longrightarrow> compute_bonus sw bet bsf vm ''simplified_bernstein''
     = Inr (Val (bsf * sqrt (1 / (bet + sw)) + (1 + bet) * vm / (bet + sw)))"
  by (simp add: compute_bonus_def Let_def)

text \<open>
  C4. For \<open>beta > 0\<close>, \<open>bonus_scale_factor \<ge> 0\<close> and \<open>v_max \<ge> 0\<close> the
  \<^verbatim>\<open>simplified_bernstein\<close> bonus is \<open>bonus_scale_factor * sqrt (1/n) + (1 + beta) * v_max / n\<close>
  with \<open>n = beta + sum_weights\<close>, and it does not increase when the accumulated weight
  grows: for \<open>0 \<le> n1 \<le> n2\<close> the bonus at \<open>n1\<close> is at least the bonus at \<open>n2\<close>.
\<close>

theorem compute_bonus_monotone:
  assumes "0 < bet" and "0 \<le> bsf" and "0 \<le> vm" and "0 \<le> n1" and "n1 \<le> n2"
  shows "\<exists>b1 b2. compute_bonus n1 bet bsf vm ''simplified_bernstein'' = Inr (Val b1)
           \<and> compute_bonus n2 bet bsf vm ''simplified_bernstein'' = Inr (Val b2)
           \<and> b1 = bsf * sqrt (1 / (bet + n1)) + (1 + bet) * vm / (bet + n1)
           \<and> b2 = bsf * sqrt (1 / (bet + n2)) + (1 + bet) * vm / (bet + n2)
           \<and> b2 \<le> b1"
proof -
  have p1: "0 < bet + n1" and p2: "0 < bet + n2" and le: "bet + n1 \<le> bet + n2"
    using assms by simp_all
  have inv: "1 / (bet + n2) \<le> 1 / (bet + n1)"
    using p1 le by (simp add: frac_le)
  have s: "bsf * sqrt (1 / (bet + n2)) \<le> bsf * sqrt (1 / (bet + n1))"
    using inv assms(2) by (intro mult_left_mono) simp_all
  have "0 \<le> (1 + bet) * vm" using assms by simp
  then have t: "(1 + bet) * vm / (bet + n2) \<le> (1 + bet) * vm / (bet + n1)"
    using p1 le by (intro divide_left_mono) simp_all
  show ?thesis
    using s t compute_bonus_value [OF p1] compute_bonus_value [OF p2] by simp
qed

theorem compute_bonus_monotone_witness:
  "\<exists>b1 b2. compute_bonus 0 1 1 1 ''simplified_bernstein'' = Inr (Val b1)
           \<and> compute_bonus 3 1 1 1 ''simplified_bernstein'' = Inr (Val b2)
           \<and> b1 = 3 \<and> b2 = 1 \<and> b2 \<le> b1"
  using compute_bonus_monotone [of 1 1 1 0 3] by (simp add: real_sqrt_divide)

subsection \<open>Mapping a state to a representative\<close>

lemma closest_repr_unique:
  "closest_repr d n j \<Longrightarrow> closest_repr d n j' \<Longrightarrow> j = j'"
  unfolding closest_repr_def
  by (metis linorder_neqE_nat not_le)

lemma closest_repr_Suc:
  assumes "closest_repr d k j"
  shows "closest_repr d (Suc k) (if d k < d j then k else j)"
  using assms unfolding closest_repr_def
  by (auto simp: less_Suc_eq intro: order.strict_trans2 less_imp_le order_trans)

lemma closest_repr_gt:
  "closest_repr d n j \<Longrightarrow> (md < d j) = (\<forall>i<n. md < d i)"
  unfolding closest_repr_def by (meson less_le_trans)

lemma scan_repr_pos:
  "0 < k \<Longrightarrow> k \<le> length reprs \<Longrightarrow>
   \<exists>j. closest_repr (\<lambda>i. m s (reprs ! i) lp sc) k j
       \<and> scan_repr m s lp reprs sc k = Inr (Some (m s (reprs ! j) lp sc), int j)"
proof (induction k)
  case 0
  then show ?case by simp
next
  case (Suc k)
  let ?d = "\<lambda>i. m s (reprs ! i) lp sc"
  from Suc.prems have kl: "k < length reprs" by simp
  show ?case
  proof (cases "k = 0")
    case True
    then show ?thesis using kl
      by (simp add: lt_closest_def closest_repr_def)
  next
    case False
    with Suc kl obtain j where j: "closest_repr ?d k j"
      and eq: "scan_repr m s lp reprs sc k = Inr (Some (?d j), int j)"
      by auto
    have c: "closest_repr ?d (Suc k) (if ?d k < ?d j then k else j)"
      by (rule closest_repr_Suc [OF j])
    show ?thesis using kl eq c
      by (auto simp: lt_closest_def Let_def)
  qed
qed

lemma map_to_representative_empty:
  "map_to_representative m s lp reprs 0 md sc acc =
     (if 0 < length reprs \<and> acc then Inr (0, reprs[0 := s]) else Inr (- 1, reprs))"
  by (simp add: map_to_representative_def closest_gt_def)

lemma map_to_representative_nonempty:
  assumes "0 < n" and "n \<le> length reprs"
  shows "\<exists>j. closest_repr (\<lambda>i. m s (reprs ! i) lp sc) n j
           \<and> map_to_representative m s lp reprs n md sc acc =
               (if (\<forall>i<n. md < m s (reprs ! i) lp sc) \<and> n < length reprs \<and> acc
                then Inr (int n, reprs[n := s]) else Inr (int j, reprs))"
proof -
  let ?d = "\<lambda>i. m s (reprs ! i) lp sc"
  from assms obtain j where j: "closest_repr ?d n j"
    and eq: "scan_repr m s lp reprs sc n = Inr (Some (?d j), int j)"
    using scan_repr_pos [of n reprs m s lp sc] by auto
  have "map_to_representative m s lp reprs n md sc acc =
      (if (\<forall>i<n. md < ?d i) \<and> n < length reprs \<and> acc then Inr (int n, reprs[n := s])
       else Inr (int j, reprs))"
    using eq closest_repr_gt [OF j, of md]
    by (auto simp: map_to_representative_def closest_gt_def Let_def)
  with j show ?thesis by blast
qed

text \<open>
  C2 (as amended). For every state vector and \<open>n \<le>\<close> capacity, \<^verbatim>\<open>map_to_representative\<close>
  appends the state at index \<open>n\<close> and returns \<open>n\<close> exactly when every active point is
  farther than \<open>min_dist\<close> (which holds when there is none), \<open>n\<close> is below the capacity and
  \<open>accept_new_repr\<close> is true. Otherwise, when there is at least one active point, it
  returns the index of the minimum-distance one, the lowest index among ties, however far
  away it is, and leaves the array alone; when there is none, it returns \<open>-1\<close>. The
  minimum-distance point with the lowest index is unique.
\<close>

theorem map_to_representative_spec:
  assumes "n \<le> length reprs"
  shows "(((\<forall>i<n. md < m s (reprs ! i) lp sc) \<and> n < length reprs \<and> acc) \<longrightarrow>
            map_to_representative m s lp reprs n md sc acc = Inr (int n, reprs[n := s]))
       \<and> (\<not> ((\<forall>i<n. md < m s (reprs ! i) lp sc) \<and> n < length reprs \<and> acc) \<and> 0 < n \<longrightarrow>
            (\<exists>j. closest_repr (\<lambda>i. m s (reprs ! i) lp sc) n j
               \<and> map_to_representative m s lp reprs n md sc acc = Inr (int j, reprs)))
       \<and> (\<not> ((\<forall>i<n. md < m s (reprs ! i) lp sc) \<and> n < length reprs \<and> acc) \<and> n = 0 \<longrightarrow>
            map_to_representative m s lp reprs n md sc acc = Inr (- 1, reprs))
       \<and> (\<forall>j j'. closest_repr (\<lambda>i. m s (reprs ! i) lp sc) n j
              \<and> closest_repr (\<lambda>i. m s (reprs ! i) lp sc) n j' \<longrightarrow> j = j')"
proof (cases "n = 0")
  case True
  then show ?thesis
    by (auto simp: map_to_representative_empty closest_repr_def)
next
  case False
  have u: "\<forall>j j'. closest_repr (\<lambda>i. m s (reprs ! i) lp sc) n j
              \<and> closest_repr (\<lambda>i. m s (reprs ! i) lp sc) n j' \<longrightarrow> j = j'"
    using closest_repr_unique by blast
  from False assms map_to_representative_nonempty [of n reprs m s lp sc md acc] u
  show ?thesis by auto
qed

theorem map_to_representative_counterexample:
  "map_to_representative metric_lp_spec [1 / 2] \<infinity> [[0]] 0 (1 / 10) [1] False = Inr (- 1, [[0]])"
  by (simp add: ev)

theorem map_to_representative_spec_witness:
  "(2::nat) \<le> length [[1 / 10], [6 / 10], [0::real]]
   \<and> map_to_representative metric_lp_spec [55 / 100] \<infinity> [[1 / 10], [6 / 10], [0]] 2 (1 / 2) [1] True
       = Inr (1, [[1 / 10], [6 / 10], [0]])
   \<and> map_to_representative metric_lp_spec [95 / 100] \<infinity> [[1 / 10], [2 / 10], [0]] 2 (1 / 2) [1] True
       = Inr (2, [[1 / 10], [2 / 10], [95 / 100]])"
proof -
  have h: "(2::nat) \<le> length [[1 / 10], [6 / 10], [0::real]]" by simp
  note t = map_to_representative_spec [OF h, of "1 / 2" metric_lp_spec "[55 / 100]" \<infinity> "[1]" True]
  have e1: "map_to_representative metric_lp_spec [55 / 100] \<infinity> [[1 / 10], [6 / 10], [0]] 2 (1 / 2) [1] True
       = Inr (1, [[1 / 10], [6 / 10], [0]])"
    by (simp add: ev)
  have e2: "map_to_representative metric_lp_spec [95 / 100] \<infinity> [[1 / 10], [2 / 10], [0]] 2 (1 / 2) [1] True
       = Inr (2, [[1 / 10], [2 / 10], [95 / 100]])"
    by (simp add: ev)
  have c: "(2::nat) \<le> length [[1 / 10], [6 / 10], [0::real]]
   \<and> map_to_representative metric_lp_spec [55 / 100] \<infinity> [[1 / 10], [6 / 10], [0]] 2 (1 / 2) [1] True
       = Inr (1, [[1 / 10], [6 / 10], [0]])
   \<and> map_to_representative metric_lp_spec [95 / 100] \<infinity> [[1 / 10], [2 / 10], [0]] 2 (1 / 2) [1] True
       = Inr (2, [[1 / 10], [2 / 10], [95 / 100]])"
    using h e1 e2 by (intro conjI)
  from t c show ?thesis by (simp only:)
qed

lemma map_to_representative_cases:
  assumes "n \<le> length reprs"
  shows "(\<exists>j. map_to_representative m s lp reprs n md sc acc = Inr (j, reprs) \<and> - 1 \<le> j \<and> j < int n
            \<and> (0 < n \<longrightarrow> 0 \<le> j)
            \<and> \<not> ((\<forall>i<n. md < m s (reprs ! i) lp sc) \<and> n < length reprs \<and> acc))
       \<or> (map_to_representative m s lp reprs n md sc acc = Inr (int n, reprs[n := s])
            \<and> (\<forall>i<n. md < m s (reprs ! i) lp sc) \<and> n < length reprs \<and> acc)"
proof (cases "n = 0")
  case True
  then show ?thesis by (auto simp: map_to_representative_empty)
next
  case False
  with assms obtain j where "closest_repr (\<lambda>i. m s (reprs ! i) lp sc) n j"
    and "map_to_representative m s lp reprs n md sc acc =
               (if (\<forall>i<n. md < m s (reprs ! i) lp sc) \<and> n < length reprs \<and> acc
                then Inr (int n, reprs[n := s]) else Inr (int j, reprs))"
    using map_to_representative_nonempty [of n reprs m s lp sc md acc] by auto
  then show ?thesis using False by (auto simp: closest_repr_def)
qed

text \<open>
  C5. On an agent with \<open>M \<le> max_repr\<close> whose array of representatives has \<open>max_repr\<close>
  rows, \<^verbatim>\<open>_map_to_repr(state, True)\<close> returns for every state an index below the new
  count \<open>M'\<close>, with \<open>M' \<le> max_repr\<close>; \<open>M\<close> grows by at most one, by exactly one when
  the state is appended as a new representative (every active point farther than
  \<open>min_dist\<close> and room left), and by nothing otherwise. When the capacity is not zero the
  index is not negative.
\<close>

theorem map_to_repr_index_bound:
  assumes "M ag \<le> max_repr ag" and "length (representative_states ag) = max_repr ag"
  shows "\<exists>idx ag'. map_to_repr w ag s True = Inr (idx, ag')
     \<and> idx < int (M ag') \<and> M ag' \<le> max_repr ag' \<and> max_repr ag' = max_repr ag
     \<and> length (representative_states ag') = max_repr ag'
     \<and> M ag \<le> M ag' \<and> M ag' \<le> M ag + 1
     \<and> (M ag' = M ag + 1 \<longleftrightarrow>
          (\<forall>i<M ag. min_dist ag < metric_lp w s (representative_states ag ! i) (lp_metric ag) (scaling ag))
          \<and> M ag < max_repr ag)
     \<and> (M ag' = M ag + 1 \<longrightarrow> idx = int (M ag)
          \<and> representative_states ag' = (representative_states ag)[M ag := s])
     \<and> (M ag' = M ag \<longrightarrow> representative_states ag' = representative_states ag)
     \<and> (0 < max_repr ag \<longrightarrow> 0 \<le> idx)"
proof -
  have n: "M ag \<le> length (representative_states ag)" using assms by simp
  show ?thesis
    using map_to_representative_cases [OF n, of "metric_lp w" s "lp_metric ag" "min_dist ag" "scaling ag" True] assms
    by (auto simp: map_to_repr_def Let_def)
qed

theorem map_to_repr_index_bound_witness:
  "M (demo_agent 2 1 0) \<le> max_repr (demo_agent 2 1 0)
   \<and> length (representative_states (demo_agent 2 1 0)) = max_repr (demo_agent 2 1 0)
   \<and> map_to_repr demo_world (demo_agent 2 1 0) [1 / 10] True
       = Inr (0, (demo_agent 2 1 0)\<lparr>representative_states := [[1 / 10], [0]], M := 1\<rparr>)"
  using map_to_repr_index_bound [of "demo_agent 2 1 0" demo_world "[1 / 10]"]
proof -
  have "M (demo_agent 2 1 0) \<le> max_repr (demo_agent 2 1 0)
   \<and> length (representative_states (demo_agent 2 1 0)) = max_repr (demo_agent 2 1 0)
   \<and> map_to_repr demo_world (demo_agent 2 1 0) [1 / 10] True
       = Inr (0, (demo_agent 2 1 0)\<lparr>representative_states := [[1 / 10], [0]], M := 1\<rparr>)"
    by (simp add: ev)
  then show ?thesis by simp
qed

subsection \<open>No representative state yet\<close>

lemma map_to_repr_empty:
  assumes "M ag = 0"
  shows "map_to_repr w ag s False = Inr (- 1, ag)"
  using assms by (simp add: map_to_repr_def map_to_representative_empty)

lemma q_row_minus_one:
  "q_row q h (- 1) =
     bnd (py_index (length q) h)
       (\<lambda>h'. if q ! h' = [] then Inl IndexError else Inr (last (q ! h')))"
proof (cases "py_index (length q) h")
  case (Inl e)
  then show ?thesis by (simp add: q_row_def)
next
  case (Inr h')
  show ?thesis
  proof (cases "q ! h' = []")
    case True
    with Inr show ?thesis by (simp add: q_row_def py_index_def)
  next
    case False
    then obtain x xs where c: "q ! h' = x # xs" by (cases "q ! h'") auto
    have "py_index (length (q ! h')) (- 1) = Inr (length (q ! h') - 1)"
      unfolding c by (simp add: py_index_def)
    with Inr False show ?thesis by (simp add: q_row_def last_conv_nth)
  qed
qed

lemma argmax_zeros: "0 < n \<Longrightarrow> argmax (replicate n 0) = Inr 0"
  by (simp add: argmax_def set_replicate_conv_if)

text \<open>
  C8 (as amended). With no representative state yet, \<^verbatim>\<open>map_to_representative\<close> returns
  \<open>-1\<close> exactly when the creation branch is not taken (\<open>accept_new_repr\<close> false, or no
  capacity). \<^verbatim>\<open>_get_action\<close> and \<^verbatim>\<open>policy\<close>, which never create, then read their Q table at
  row \<open>-1\<close>: that is the last row of the table when it has rows, and an \<^verbatim>\<open>IndexError\<close>
  when it has none. On a freshly reset agent with a horizon, \<^verbatim>\<open>_get_action\<close> raises that
  error when \<open>max_repr = 0\<close>, and otherwise reads the last reserved row of \<open>Q\<close>, all
  zeros, and returns action \<open>0\<close>.
\<close>

theorem no_representative_row:
  "(map_to_representative m s lp reprs 0 md sc acc = Inr (- 1, reprs)
      \<longleftrightarrow> \<not> (acc \<and> 0 < length reprs))
   \<and> (M ag = 0 \<and> Q ag = Some q \<longrightarrow>
        get_action w ag s hh = bnd (greedy (gamma ag) q hh (- 1)) (\<lambda>a. Inr (a, ag)))
   \<and> (M ag = 0 \<and> Q_policy ag = Some q \<longrightarrow>
        policy w ag s hh = bnd (greedy (gamma ag) q hh (- 1)) (\<lambda>a. Inr (a, ag)))
   \<and> q_row q h (- 1) =
        bnd (py_index (length q) h)
          (\<lambda>h'. if q ! h' = [] then Inl IndexError else Inr (last (q ! h')))
   \<and> (0 < horizon ag \<and> max_repr ag = 0 \<longrightarrow> get_action w (reset ag) s 0 = Inl IndexError)
   \<and> (0 < horizon ag \<and> 0 < max_repr ag \<and> 0 < A ag \<longrightarrow>
        get_action w (reset ag) s 0 = Inr (0, reset ag))"
proof -
  have a: "map_to_representative m s lp reprs 0 md sc acc = Inr (- 1, reprs)
      \<longleftrightarrow> \<not> (acc \<and> 0 < length reprs)"
    by (auto simp: map_to_representative_empty)
  have b: "get_action w ag s hh = bnd (greedy (gamma ag) q hh (- 1)) (\<lambda>a. Inr (a, ag))"
    if "M ag = 0 \<and> Q ag = Some q"
    using that by (simp add: get_action_def map_to_repr_empty)
  have c: "policy w ag s hh = bnd (greedy (gamma ag) q hh (- 1)) (\<lambda>a. Inr (a, ag))"
    if "M ag = 0 \<and> Q_policy ag = Some q"
    using that by (simp add: policy_def map_to_repr_empty)
  have m0: "M (reset ag) = 0" by (simp add: reset_def)
  have q0: "Q (reset ag) = Some (replicate (horizon ag) (replicate (max_repr ag) (replicate (A ag) 0)))"
    by (simp add: reset_def)
  have g: "get_action w (reset ag) s 0 =
      bnd (greedy (gamma (reset ag)) (replicate (horizon ag) (replicate (max_repr ag) (replicate (A ag) 0))) 0 (- 1))
        (\<lambda>a. Inr (a, reset ag))"
    by (simp add: get_action_def map_to_repr_empty [OF m0] q0)
  have gr: "\<And>gm. greedy gm (replicate (horizon ag) (replicate (max_repr ag) (replicate (A ag) 0))) 0 (- 1)
      = bnd (q_row (replicate (horizon ag) (replicate (max_repr ag) (replicate (A ag) 0))) 0 (- 1)) argmax"
    by (simp add: greedy_def)
  have d: "get_action w (reset ag) s 0 = Inl IndexError" if "0 < horizon ag \<and> max_repr ag = 0"
    using that unfolding g gr q_row_minus_one by (simp add: py_index_def)
  have e: "get_action w (reset ag) s 0 = Inr (0, reset ag)"
    if "0 < horizon ag \<and> 0 < max_repr ag \<and> 0 < A ag"
    using that unfolding g gr q_row_minus_one by (simp add: py_index_def argmax_zeros)
  show ?thesis using a b c d e q_row_minus_one [of q h] by blast
qed

theorem no_representative_row_witness:
  "M (demo_agent 2 1 0) = 0
   \<and> get_action demo_world (demo_agent 2 1 0) [1 / 2] 0 = Inr (0, demo_agent 2 1 0)
   \<and> map_to_representative metric_lp_spec [1 / 2] \<infinity> [[0], [0]] 0 (1 / 2) [1] False
       = Inr (- 1, [[0], [0]])"
proof -
  have r: "demo_agent 2 1 0 = reset (demo_agent 2 1 0)"
    by (simp add: demo_agent_def reset_def)
  have h: "0 < horizon (demo_agent 2 1 0) \<and> 0 < max_repr (demo_agent 2 1 0) \<and> 0 < A (demo_agent 2 1 0)"
    by (simp add: demo_agent_def reset_def)
  have m: "M (demo_agent 2 1 0) = 0" by (simp add: demo_agent_def reset_def)
  have e: "map_to_representative metric_lp_spec [1 / 2] \<infinity> [[0], [0]] 0 (1 / 2) [1] False
       = Inr (- 1, [[0], [0]])"
    by (simp add: ev)
  from no_representative_row [where ag = "demo_agent 2 1 0" and w = demo_world and s = "[1 / 2]"] h r
  have "get_action demo_world (demo_agent 2 1 0) [1 / 2] 0 = Inr (0, demo_agent 2 1 0)"
    by metis
  with m e show ?thesis by simp
qed

theorem no_representative_row_counterexample:
  "map_to_representative metric_lp_spec [1 / 2] \<infinity> [] 0 (1 / 2) [1] True = Inr (- 1, [])
   \<and> get_action demo_world (demo_agent 0 1 0) [1 / 2] 0 = Inl IndexError"
  by (simp add: ev)

subsection \<open>The invariants of the tables\<close>

lemma sum_dirac:
  assumes "k < n"
  shows "(\<Sum>j = 0..<n. ((replicate n (0::real))[k := 1]) ! j) = 1"
proof -
  have "(\<Sum>j = 0..<n. ((replicate n (0::real))[k := 1]) ! j) = (\<Sum>j = 0..<n. if k = j then 1 else 0)"
    by (rule sum.cong) (simp_all add: nth_list_update)
  also have "\<dots> = 1" using assms by simp
  finally show ?thesis .
qed

lemma sum_take_nth:
  assumes "n \<le> length row"
  shows "(\<Sum>j = 0..<n. row ! j) = sum_list (take n (row :: real list))"
proof -
  have "sum_list (take n row) = (\<Sum>j = 0..<length (take n row). take n row ! j)"
    by (rule sum_list_sum_nth)
  also have "\<dots> = (\<Sum>j = 0..<n. row ! j)"
    using assms by (intro sum.cong) simp_all
  finally show ?thesis by simp
qed

lemma new_row_sum:
  assumes "n \<le> length row" and "k < n"
  shows "sum_list (map (\<lambda>j. ((replicate n (0::real))[k := 1]) ! j * w / c + (p / c) * row ! j) [0..<n])
         = w / c + (p / c) * sum_list (take n row)"
proof -
  have "sum_list (map (\<lambda>j. ((replicate n (0::real))[k := 1]) ! j * w / c + (p / c) * row ! j) [0..<n])
        = (\<Sum>j = 0..<n. ((replicate n (0::real))[k := 1]) ! j * w / c + (p / c) * row ! j)"
    by (simp add: interv_sum_list_conv_sum_set_nat)
  also have "\<dots> = (\<Sum>j = 0..<n. ((replicate n (0::real))[k := 1]) ! j * (w / c))
                   + (\<Sum>j = 0..<n. (p / c) * row ! j)"
    by (simp add: sum.distrib)
  also have "\<dots> = (\<Sum>j = 0..<n. ((replicate n (0::real))[k := 1]) ! j) * (w / c)
                   + (p / c) * (\<Sum>j = 0..<n. row ! j)"
    by (simp only: sum_distrib_left sum_distrib_right)
  also have "\<dots> = w / c + (p / c) * sum_list (take n row)"
    unfolding sum_dirac [OF assms(2)] sum_take_nth [OF assms(1)] by simp
  finally show ?thesis .
qed

lemma convex_cancel:
  "(c::real) \<noteq> 0 \<Longrightarrow> c * (w / c + (p / c) * S) = w + p * S"
  by (simp add: field_simps)

lemma row_mass_update:
  assumes rm: "row_mass bet n Nv row" and b: "0 \<le> bet" and w: "0 \<le> w"
    and c: "bet + Nv + w \<noteq> 0" and n: "n \<le> length row" and k: "k < n"
  shows "row_mass bet n (Nv + w)
           (map (\<lambda>j. ((replicate n 0)[k := 1]) ! j * w / (bet + Nv + w)
                      + ((bet + Nv) / (bet + Nv + w)) * row ! j) [0..<n] @ drop n row)"
proof -
  let ?c = "bet + Nv + w"
  let ?f = "\<lambda>j. ((replicate n 0)[k := 1]) ! j * w / ?c + ((bet + Nv) / ?c) * row ! j"
  from rm have Nv: "0 \<le> Nv" and pos: "\<forall>x\<in>set row. 0 \<le> x"
    and z: "list_all (\<lambda>x. x = 0) (drop n row)"
    and m: "(bet + Nv) * sum_list (take n row) = Nv"
    by (simp_all add: row_mass_def list_all_iff)
  have cpos: "0 < ?c" using Nv b w c by linarith
  have d: "\<And>j. j < n \<Longrightarrow> 0 \<le> ((replicate n (0::real))[k := 1]) ! j"
    using k by (simp add: nth_list_update)
  have fpos: "\<And>j. j < n \<Longrightarrow> 0 \<le> ?f j"
  proof -
    fix j assume j: "j < n"
    then have "row ! j \<in> set row" using n by simp
    then have "0 \<le> row ! j" using pos by blast
    then show "0 \<le> ?f j" using d [OF j] w b Nv cpos by simp
  qed
  have p1: "list_all (\<lambda>x. 0 \<le> x) (map ?f [0..<n] @ drop n row)"
    using fpos pos by (auto simp: list_all_iff dest: in_set_dropD)
  have p2: "drop n (map ?f [0..<n] @ drop n row) = drop n row" by simp
  have p3: "take n (map ?f [0..<n] @ drop n row) = map ?f [0..<n]" by simp
  have "(bet + (Nv + w)) * sum_list (map ?f [0..<n]) = ?c * (w / ?c + ((bet + Nv) / ?c) * sum_list (take n row))"
    using new_row_sum [OF n k, of w ?c "bet + Nv"] by (simp add: add.assoc)
  also have "\<dots> = w + (bet + Nv) * sum_list (take n row)"
    using cpos by (intro convex_cancel) simp
  also have "\<dots> = Nv + w" using m by simp
  finally have p4: "(bet + (Nv + w)) * sum_list (map ?f [0..<n]) = Nv + w" .
  show ?thesis
    unfolding row_mass_def p2 p3 using Nv w p1 z p4 by simp
qed

lemma convex_bounds:
  assumes "0 \<le> w" and "0 \<le> p" and "p + w \<noteq> 0" and "lo \<le> r" and "r \<le> hi"
    and "lo \<le> x" and "x \<le> (hi::real)"
  shows "lo \<le> w * r / (p + w) + (p / (p + w)) * x \<and> w * r / (p + w) + (p / (p + w)) * x \<le> hi"
proof -
  have c: "0 < p + w" using assms by linarith
  have e: "w * r / (p + w) + (p / (p + w)) * x = (w * r + p * x) / (p + w)"
    by (simp add: add_divide_distrib)
  have l1: "w * lo \<le> w * r" and l2: "p * lo \<le> p * x"
    and u1: "w * r \<le> w * hi" and u2: "p * x \<le> p * hi"
    using assms by (simp_all add: mult_left_mono)
  have "lo * (p + w) \<le> w * r + p * x" using l1 l2 by (simp add: algebra_simps)
  moreover have "w * r + p * x \<le> hi * (p + w)" using u1 u2 by (simp add: algebra_simps)
  ultimately show ?thesis unfolding e using c
    by (simp add: pos_le_divide_eq pos_divide_le_eq)
qed

lemma mass_inv_cell:
  assumes "mass_inv bet n N P" and "in_table N u a"
  shows "in_table P u a \<and> row_mass bet n (N ! u ! a) (P ! u ! a)"
  using assms unfolding mass_inv_def in_table_def
  by (metis list_all2_conv_all_nth)

lemma mass_inv_set_cell:
  assumes "mass_inv bet n N P" and "row_mass bet n v row" and "in_table N u a"
  shows "mass_inv bet n (set_cell N u a v) (set_cell P u a row)"
proof -
  from assms(1,3) have "list_all2 (row_mass bet n) (N ! u) (P ! u)"
    unfolding mass_inv_def in_table_def by (simp add: list_all2_nthD)
  then have "list_all2 (row_mass bet n) ((N ! u)[a := v]) ((P ! u)[a := row])"
    using assms(2) by (rule list_all2_update_cong)
  with assms(1) show ?thesis
    unfolding mass_inv_def set_cell_def by (rule list_all2_update_cong)
qed

lemma bounded_set_cell:
  assumes "bounded_table lo hi R" and "lo \<le> v" and "v \<le> hi"
  shows "bounded_table lo hi (set_cell R u a v)"
proof -
  have "\<And>row x. row \<in> set (R[u := (R ! u)[a := v]]) \<Longrightarrow> x \<in> set row \<Longrightarrow> lo \<le> x \<and> x \<le> hi"
  proof -
    fix row x assume r: "row \<in> set (R[u := (R ! u)[a := v]])" and x: "x \<in> set row"
    from r have "row = (R ! u)[a := v] \<and> u < length R \<or> row \<in> set R"
      by (metis insertE list_update_beyond not_le_imp_less set_update_subset_insert subsetD)
    then show "lo \<le> x \<and> x \<le> hi"
    proof
      assume a: "row = (R ! u)[a := v] \<and> u < length R"
      with x have "x = v \<or> x \<in> set (R ! u)"
        using set_update_subset_insert by fastforce
      moreover have "R ! u \<in> set R" using a by simp
      ultimately show ?thesis using assms by (auto simp: bounded_table_def list_all_iff)
    next
      assume "row \<in> set R"
      then show ?thesis using assms(1) x by (auto simp: bounded_table_def list_all_iff)
    qed
  qed
  then show ?thesis by (auto simp: bounded_table_def set_cell_def list_all_iff)
qed

lemma bounded_cell:
  "bounded_table lo hi R \<Longrightarrow> in_table R u a \<Longrightarrow> lo \<le> R ! u ! a \<and> R ! u ! a \<le> hi"
  by (simp add: bounded_table_def in_table_def list_all_length)

lemma update_row_inv:
  assumes upd: "update_row m kf rs a ((replicate n 0)[k := 1]) r n reprs lp sc bw bsf bet vm bt kt u
                  (N, B, P, R) = Inr (N', B', P', R')"
    and mi: "mass_inv bet n N P" and b: "0 \<le> bet"
    and kf: "\<forall>z w. kf z kt = Inr w \<longrightarrow> 0 \<le> w" and k: "k < n"
  shows "mass_inv bet n N' P'
         \<and> (bounded_table lo hi R \<and> lo \<le> r \<and> r \<le> hi \<longrightarrow> bounded_table lo hi R')"
proof -
  from upd obtain w where w: "0 \<le> w"
    and iN: "in_table N u a" and iR: "in_table R u a" and n: "n \<le> length (P ! u ! a)"
    and c: "bet + N ! u ! a + w \<noteq> 0"
    and N': "N' = set_cell N u a (N ! u ! a + w)"
    and P': "P' = set_cell P u a
               (map (\<lambda>j. ((replicate n 0)[k := 1]) ! j * w / (bet + N ! u ! a + w)
                          + ((bet + N ! u ! a) / (bet + N ! u ! a + w)) * P ! u ! a ! j) [0..<n]
                @ drop n (P ! u ! a))"
    and R': "R' = set_cell R u a (w * r / (bet + N ! u ! a + w)
                                  + ((bet + N ! u ! a) / (bet + N ! u ! a + w)) * R ! u ! a)"
    using kf unfolding update_row_def
    by (auto simp: bnd_eq_Inr Let_def split: if_splits)
  from mass_inv_cell [OF mi iN] have rm: "row_mass bet n (N ! u ! a) (P ! u ! a)" by simp
  then have Nv: "0 \<le> N ! u ! a" by (simp add: row_mass_def)
  have "row_mass bet n (N ! u ! a + w)
          (map (\<lambda>j. ((replicate n 0)[k := 1]) ! j * w / (bet + N ! u ! a + w)
                     + ((bet + N ! u ! a) / (bet + N ! u ! a + w)) * P ! u ! a ! j) [0..<n]
           @ drop n (P ! u ! a))"
    by (rule row_mass_update [OF rm b w c n k])
  then have g1: "mass_inv bet n N' P'"
    unfolding N' P' using mi iN by (intro mass_inv_set_cell)
  have p: "0 \<le> bet + N ! u ! a" using b Nv by simp
  have g2: "bounded_table lo hi R'" if bd: "bounded_table lo hi R" and r: "lo \<le> r" "r \<le> hi"
  proof -
    from bounded_cell [OF bd iR] have x: "lo \<le> R ! u ! a" "R ! u ! a \<le> hi" by simp_all
    show ?thesis
      unfolding R' using convex_bounds [OF w p c r x] bd by (intro bounded_set_cell) simp_all
  qed
  show ?thesis using g1 g2 by simp
qed

lemma update_loop_inv:
  assumes "update_loop m kf rs a ((replicate n 0)[k := 1]) r n reprs lp sc bw bsf bet vm bt kt
             (N, B, P, R) j = Inr (N', B', P', R')"
    and "mass_inv bet n N P" and "0 \<le> bet"
    and "\<forall>z w. kf z kt = Inr w \<longrightarrow> 0 \<le> w" and "k < n"
  shows "mass_inv bet n N' P'
         \<and> (bounded_table lo hi R \<and> lo \<le> r \<and> r \<le> hi \<longrightarrow> bounded_table lo hi R')"
  using assms(1)
proof (induction j arbitrary: N' B' P' R')
  case 0
  then show ?case using assms by simp
next
  case (Suc j)
  from Suc.prems obtain t where t: "update_loop m kf rs a ((replicate n 0)[k := 1]) r n reprs lp sc
        bw bsf bet vm bt kt (N, B, P, R) j = Inr t"
    and u: "update_row m kf rs a ((replicate n 0)[k := 1]) r n reprs lp sc bw bsf bet vm bt kt j t
              = Inr (N', B', P', R')"
    by (auto simp: bnd_eq_Inr)
  obtain N1 B1 P1 R1 where t1: "t = (N1, B1, P1, R1)" by (cases t) auto
  from Suc.IH [OF t [unfolded t1]] have i: "mass_inv bet n N1 P1"
    and j: "bounded_table lo hi R \<and> lo \<le> r \<and> r \<le> hi \<longrightarrow> bounded_table lo hi R1"
    by simp_all
  from update_row_inv [OF u [unfolded t1] i assms(3,4,5), of lo hi] j
  show ?case by blast
qed

lemma py_index_less: "py_index n i = Inr k \<Longrightarrow> k < n"
  by (auto simp: py_index_def split: if_splits)

lemma update_model_inv:
  assumes "update_model m kf rs a nxt r n reprs lp sc bw bsf bet vm bt kt N B P R
             = Inr (N', B', P', R')"
    and "mass_inv bet n N P" and "0 \<le> bet"
    and "\<forall>z w. kf z kt = Inr w \<longrightarrow> 0 \<le> w"
  shows "mass_inv bet n N' P'
         \<and> (bounded_table lo hi R \<and> lo \<le> r \<and> r \<le> hi \<longrightarrow> bounded_table lo hi R')"
proof -
  from assms(1) obtain k where k: "py_index n nxt = Inr k"
    and l: "update_loop m kf rs a ((replicate n 0)[k := 1]) r n reprs lp sc bw bsf bet vm bt kt
              (N, B, P, R) n = Inr (N', B', P', R')"
    by (auto simp: update_model_def bnd_eq_Inr Let_def)
  show ?thesis
    by (rule update_loop_inv [OF l assms(2-4) py_index_less [OF k]])
qed

lemma sum_list_zeros: "\<forall>x\<in>set xs. x = (0::real) \<Longrightarrow> sum_list xs = 0"
  by (induction xs) simp_all

lemma row_mass_mono:
  assumes "row_mass bet n v row" and "n \<le> n'"
  shows "row_mass bet n' v row"
proof -
  from assms(1) have v: "0 \<le> v" and pos: "list_all (\<lambda>x. 0 \<le> x) row"
    and z: "\<forall>x\<in>set (drop n row). x = 0" and s: "(bet + v) * sum_list (take n row) = v"
    by (simp_all add: row_mass_def list_all_iff)
  obtain d where d: "n' = n + d" using assms(2) by (auto simp: le_iff_add)
  have "set (take d (drop n row)) \<subseteq> set (drop n row)" by (rule set_take_subset)
  then have "\<forall>x\<in>set (take d (drop n row)). x = 0" using z by blast
  then have "sum_list (take d (drop n row)) = 0" by (rule sum_list_zeros)
  then have t: "sum_list (take n' row) = sum_list (take n row)"
    unfolding d take_add by simp
  have "set (drop n' row) \<subseteq> set (drop n row)"
    using assms(2) by (rule set_drop_subset_set_drop)
  then have z': "list_all (\<lambda>x. x = 0) (drop n' row)" using z by (auto simp: list_all_iff)
  show ?thesis unfolding row_mass_def t using v pos z' s by simp
qed

lemma mass_inv_mono:
  assumes "mass_inv bet n N P" and "n \<le> n'"
  shows "mass_inv bet n' N P"
  using assms unfolding mass_inv_def
  by (auto intro!: list_all2_mono [where P = "list_all2 (row_mass bet n)"]
           elim!: list_all2_mono row_mass_mono)

lemma map_to_repr_frame:
  assumes "map_to_repr w ag s acc = Inr (idx, ag')"
  shows "M ag \<le> M ag' \<and> N_sa ag' = N_sa ag \<and> P_hat ag' = P_hat ag \<and> R_hat ag' = R_hat ag
         \<and> beta ag' = beta ag \<and> kernel_type ag' = kernel_type ag
         \<and> Q_policy ag' = Q_policy ag \<and> Q ag' = Q ag"
proof (cases "map_to_representative (metric_lp w) s (lp_metric ag) (representative_states ag)
                (M ag) (min_dist ag) (scaling ag) acc")
  case (Inl e)
  with assms show ?thesis by (simp add: map_to_repr_def)
next
  case (Inr p)
  obtain i reprs where p: "p = (i, reprs)" by (cases p) auto
  show ?thesis
  proof (cases "i = int (M ag)")
    case True
    with assms Inr p show ?thesis by (simp add: map_to_repr_def Let_def) auto
  next
    case False
    with assms Inr p show ?thesis by (simp add: map_to_repr_def Let_def) auto
  qed
qed

lemma update_inv:
  assumes "update w ag s a s' r = Inr ag'"
    and "mass_inv (beta ag) (M ag) (N_sa ag) (P_hat ag)" and "0 \<le> beta ag"
    and "\<forall>z x. kernel_func w z (kernel_type ag) = Inr x \<longrightarrow> 0 \<le> x"
  shows "mass_inv (beta ag') (M ag') (N_sa ag') (P_hat ag')
         \<and> (bounded_table lo hi (R_hat ag) \<and> lo \<le> r \<and> r \<le> hi \<longrightarrow> bounded_table lo hi (R_hat ag'))
         \<and> beta ag' = beta ag \<and> kernel_type ag' = kernel_type ag"
proof -
  from assms(1) obtain i1 ag1 i2 ag2 N' B' P' R' where
    m1: "map_to_repr w ag s True = Inr (i1, ag1)" and
    m2: "map_to_repr w ag1 s' True = Inr (i2, ag2)" and
    um: "update_model (metric_lp w) (kernel_func w) i1 a i2 r (M ag2) (representative_states ag2)
           (lp_metric ag2) (scaling ag2) (bandwidth ag2) (bonus_scale_factor ag2) (beta ag2)
           (v_max ag2) (bonus_type ag2) (kernel_type ag2) (N_sa ag2) (B_sa ag2) (P_hat ag2)
           (R_hat ag2) = Inr (N', B', P', R')" and
    ag': "ag' = ag2\<lparr>N_sa := N', B_sa := B', P_hat := P', R_hat := R'\<rparr>"
    by (auto simp: update_def bnd_eq_Inr)
  note f1 = map_to_repr_frame [OF m1] and f2 = map_to_repr_frame [OF m2]
  have le: "M ag \<le> M ag2" using f1 f2 by simp
  have eqs: "N_sa ag2 = N_sa ag" "P_hat ag2 = P_hat ag" "R_hat ag2 = R_hat ag"
    "beta ag2 = beta ag" "kernel_type ag2 = kernel_type ag"
    using f1 f2 by simp_all
  have mi: "mass_inv (beta ag2) (M ag2) (N_sa ag2) (P_hat ag2)"
    unfolding eqs by (rule mass_inv_mono [OF assms(2) le])
  have b2: "0 \<le> beta ag2" and k2: "\<forall>z x. kernel_func w z (kernel_type ag2) = Inr x \<longrightarrow> 0 \<le> x"
    using assms(3,4) unfolding eqs by simp_all
  have "mass_inv (beta ag2) (M ag2) N' P'
        \<and> (bounded_table lo hi (R_hat ag2) \<and> lo \<le> r \<and> r \<le> hi \<longrightarrow> bounded_table lo hi R')"
    by (rule update_model_inv [OF um mi b2 k2])
  then show ?thesis unfolding ag' using eqs by simp
qed

lemma updates_inv:
  assumes "updates w ag ts = Inr ag'"
    and "mass_inv (beta ag) (M ag) (N_sa ag) (P_hat ag)" and "0 \<le> beta ag"
    and "\<forall>z x. kernel_func w z (kernel_type ag) = Inr x \<longrightarrow> 0 \<le> x"
  shows "mass_inv (beta ag') (M ag') (N_sa ag') (P_hat ag')
         \<and> (bounded_table lo hi (R_hat ag) \<and> (\<forall>(s, a, s', r)\<in>set ts. lo \<le> r \<and> r \<le> hi)
              \<longrightarrow> bounded_table lo hi (R_hat ag'))
         \<and> beta ag' = beta ag"
  using assms
proof (induction ts arbitrary: ag)
  case Nil
  then show ?case by simp
next
  case (Cons t ts)
  obtain s a s' r where t: "t = (s, a, s', r)" by (cases t) auto
  from Cons.prems(1) obtain ag1 where u: "update w ag s a s' r = Inr ag1"
    and rest: "updates w ag1 ts = Inr ag'"
    by (auto simp: t bnd_eq_Inr)
  from update_inv [OF u Cons.prems(2,3,4), of lo hi]
  have i1: "mass_inv (beta ag1) (M ag1) (N_sa ag1) (P_hat ag1)"
    and i2: "bounded_table lo hi (R_hat ag) \<and> lo \<le> r \<and> r \<le> hi \<longrightarrow> bounded_table lo hi (R_hat ag1)"
    and i3: "beta ag1 = beta ag" and i4: "kernel_type ag1 = kernel_type ag" by blast+
  have b1: "0 \<le> beta ag1" and k1: "\<forall>z x. kernel_func w z (kernel_type ag1) = Inr x \<longrightarrow> 0 \<le> x"
    using Cons.prems(3,4) unfolding i3 i4 by simp_all
  from Cons.IH [OF rest i1 b1 k1]
  have j1: "mass_inv (beta ag') (M ag') (N_sa ag') (P_hat ag')"
    and j2: "bounded_table lo hi (R_hat ag1) \<and> (\<forall>(s, a, s', r)\<in>set ts. lo \<le> r \<and> r \<le> hi)
              \<longrightarrow> bounded_table lo hi (R_hat ag')"
    and j3: "beta ag' = beta ag1" by blast+
  show ?case using j1 j2 j3 i2 i3 by (auto simp: t)
qed

lemma reset_mass_inv:
  "mass_inv (beta (reset ag)) (M (reset ag)) (N_sa (reset ag)) (P_hat (reset ag))"
  by (simp add: reset_def mass_inv_def row_mass_def list_all2_conv_all_nth list_all_length)

lemma reset_bounded:
  "lo \<le> 0 \<Longrightarrow> 0 \<le> hi \<Longrightarrow> bounded_table lo hi (R_hat (reset ag))"
  by (simp add: reset_def bounded_table_def list_all_length)

lemma kernel_func_spec_nonneg: "\<forall>z x. kernel_func_spec z kt = Inr x \<longrightarrow> 0 \<le> x"
  by (auto simp: kernel_func_spec_def split: if_splits)

lemma mass_inv_cell_P:
  assumes "mass_inv bet n N P" and "in_table P u a"
  shows "in_table N u a \<and> row_mass bet n (N ! u ! a) (P ! u ! a)"
  using assms unfolding mass_inv_def in_table_def
  by (metis list_all2_conv_all_nth)

text \<open>
  C1 (as amended). After any sequence of model updates on a freshly reset agent, with
  \<open>beta \<ge> 0\<close> and a kernel whose weights are not negative, every entry of every row
  \<open>P_hat[u, a, :]\<close> is \<open>\<ge> 0\<close>, and the entries over the active representatives carry
  the mass \<open>N_sa[u, a] / (beta + N_sa[u, a])\<close>: with \<open>beta > 0\<close> they sum to that quotient,
  which is strictly below \<open>1\<close>; with \<open>beta = 0\<close> they sum to \<open>1\<close> once the pair has
  received weight.
\<close>

theorem P_hat_row_mass:
  assumes "updates w (reset ag) ts = Inr ag'" and "0 \<le> beta ag"
    and "\<forall>z x. kernel_func w z (kernel_type ag) = Inr x \<longrightarrow> 0 \<le> x"
  shows "\<forall>u a. in_table (P_hat ag') u a \<longrightarrow>
           (\<forall>x\<in>set (P_hat ag' ! u ! a). 0 \<le> x)
         \<and> (beta ag + N_sa ag' ! u ! a) * sum_list (take (M ag') (P_hat ag' ! u ! a))
             = N_sa ag' ! u ! a
         \<and> (0 < beta ag \<longrightarrow>
              sum_list (take (M ag') (P_hat ag' ! u ! a))
                = N_sa ag' ! u ! a / (beta ag + N_sa ag' ! u ! a)
              \<and> sum_list (take (M ag') (P_hat ag' ! u ! a)) < 1)
         \<and> (beta ag = 0 \<and> 0 < N_sa ag' ! u ! a \<longrightarrow>
              sum_list (take (M ag') (P_hat ag' ! u ! a)) = 1)"
proof (intro allI impI)
  fix u a assume it: "in_table (P_hat ag') u a"
  let ?S = "sum_list (take (M ag') (P_hat ag' ! u ! a))"
  let ?N = "N_sa ag' ! u ! a"
  have b: "0 \<le> beta (reset ag)" using assms(2) by (simp add: reset_def)
  have k: "\<forall>z x. kernel_func w z (kernel_type (reset ag)) = Inr x \<longrightarrow> 0 \<le> x"
    using assms(3) by (simp add: reset_def)
  have "beta (reset ag) = beta ag" by (simp add: reset_def)
  with updates_inv [OF assms(1) reset_mass_inv b k, of 0 0]
  have mi: "mass_inv (beta ag) (M ag') (N_sa ag') (P_hat ag')" by auto
  from mass_inv_cell_P [OF mi it] have rm: "row_mass (beta ag) (M ag') ?N (P_hat ag' ! u ! a)"
    by simp
  then have n0: "0 \<le> ?N" and pos: "\<forall>x\<in>set (P_hat ag' ! u ! a). 0 \<le> x"
    and m: "(beta ag + ?N) * ?S = ?N"
    by (simp_all add: row_mass_def list_all_iff)
  have c1: "?S = ?N / (beta ag + ?N) \<and> ?S < 1" if bp: "0 < beta ag"
  proof -
    have d: "0 < beta ag + ?N" using bp n0 by simp
    then have e: "?S = ?N / (beta ag + ?N)" using m by (simp add: field_simps)
    have "?N / (beta ag + ?N) < 1" using d bp by simp
    with e show ?thesis by simp
  qed
  have c2: "?S = 1" if "beta ag = 0 \<and> 0 < ?N"
    using that m by simp
  show "(\<forall>x\<in>set (P_hat ag' ! u ! a). 0 \<le> x)
         \<and> (beta ag + ?N) * ?S = ?N
         \<and> (0 < beta ag \<longrightarrow> ?S = ?N / (beta ag + ?N) \<and> ?S < 1)
         \<and> (beta ag = 0 \<and> 0 < ?N \<longrightarrow> ?S = 1)"
    using pos m c1 c2 by blast
qed

theorem P_hat_row_mass_witness:
  "in_table (P_hat (projr (updates demo_world (reset (demo_agent 2 (1 / 100) 0))
                              [([1 / 10], 0, [9 / 10], 1)]))) 0 0
   \<and> sum_list (take (M (projr (updates demo_world (reset (demo_agent 2 (1 / 100) 0))
                                  [([1 / 10], 0, [9 / 10], 1)])))
                 (P_hat (projr (updates demo_world (reset (demo_agent 2 (1 / 100) 0))
                                  [([1 / 10], 0, [9 / 10], 1)])) ! 0 ! 0))
       = N_sa (projr (updates demo_world (reset (demo_agent 2 (1 / 100) 0))
                        [([1 / 10], 0, [9 / 10], 1)])) ! 0 ! 0
         / (beta (demo_agent 2 (1 / 100) 0)
            + N_sa (projr (updates demo_world (reset (demo_agent 2 (1 / 100) 0))
                             [([1 / 10], 0, [9 / 10], 1)])) ! 0 ! 0)
   \<and> P_hat (projr (updates demo_world (reset (demo_agent 2 (1 / 100) 0))
                      [([1 / 10], 0, [9 / 10], 1)])) ! 0 ! 0 = [0, 100 / 101]"
proof -
  let ?ag = "demo_agent 2 (1 / 100) 0"
  let ?ts = "[([1 / 10], 0::nat, [9 / 10], 1::real)]"
  let ?r = "projr (updates demo_world (reset ?ag) ?ts)"
  have e: "updates demo_world (reset ?ag) ?ts = Inr
     \<lparr>env = 0, n_episodes = 0, gamma = 1, horizon = 1, lp_metric = \<infinity>,
      kernel_type = ''epanechnikov'', bandwidth = 1, min_dist = 1 / 2,
      bonus_scale_factor = 0, beta = 1 / 100, bonus_type = ''simplified_bernstein'',
      state_dim = 1, scaling = [1], v_max = 1, max_repr = 2, M = 2, A = 2, episode = 0,
      representative_states = [[1 / 10], [9 / 10]],
      N_sa = [[1, 0], [9 / 25, 0]],
      B_sa = [[Val 1, Val 1], [Val (101 / 37), Val 1]],
      R_hat = [[100 / 101, 0], [36 / 37, 0]],
      P_hat = [[[0, 100 / 101], [0, 0]], [[0, 36 / 37], [0, 0]]],
      Q = Some [[[0, 0], [0, 0]]], V = [[0, 0]], Q_policy = None,
      rewards = [], cumul_rewards = []\<rparr>"
    by (simp add: ev)
  have h1: "updates demo_world (reset ?ag) ?ts = Inr ?r" unfolding e by simp
  have h2: "0 \<le> beta ?ag" by (simp add: demo_agent_def reset_def)
  have h3: "\<forall>z x. kernel_func demo_world z (kernel_type ?ag) = Inr x \<longrightarrow> 0 \<le> x"
    using kernel_func_spec_nonneg by (simp add: demo_world_def)
  have it: "in_table (P_hat ?r) 0 0" unfolding e by (simp add: in_table_def)
  have bp: "0 < beta ?ag" by (simp add: demo_agent_def reset_def)
  have row: "P_hat ?r ! 0 ! 0 = [0, 100 / 101]" unfolding e by simp
  from P_hat_row_mass [OF h1 h2 h3] it bp row show ?thesis by blast
qed

theorem P_hat_row_counterexample:
  "update_model metric_lp_spec kernel_func_spec 0 0 0 1 1 [[1 / 10]] \<infinity> [1] 1 0 (1 / 100) 1
     ''simplified_bernstein'' ''epanechnikov'' [[0]] [[Val 1]] [[[0]]] [[0]]
     = Inr ([[1]], [[Val 1]], [[[100 / 101]]], [[100 / 101]])
   \<and> sum_list [100 / 101 :: real] \<noteq> 1"
  by (simp add: ev)

text \<open>
  C3 (as amended). After any sequence of model updates on a freshly reset agent whose
  observed rewards all lie in \<open>[r_min, r_max]\<close>, with \<open>beta \<ge> 0\<close> and a kernel whose
  weights are not negative, every entry of \<open>R_hat\<close> lies in
  \<open>[min 0 r_min, max 0 r_max]\<close>; in particular in \<open>[r_min, r_max]\<close> when that range
  contains \<open>0\<close>.
\<close>

theorem R_hat_bounded:
  assumes "updates w (reset ag) ts = Inr ag'"
    and "\<forall>(s, a, s', r)\<in>set ts. r_min \<le> r \<and> r \<le> r_max"
    and "0 \<le> beta ag"
    and "\<forall>z x. kernel_func w z (kernel_type ag) = Inr x \<longrightarrow> 0 \<le> x"
  shows "(\<forall>row\<in>set (R_hat ag'). \<forall>x\<in>set row. min 0 r_min \<le> x \<and> x \<le> max 0 r_max)
       \<and> (r_min \<le> 0 \<and> 0 \<le> r_max \<longrightarrow>
            (\<forall>row\<in>set (R_hat ag'). \<forall>x\<in>set row. r_min \<le> x \<and> x \<le> r_max))"
proof -
  have b: "0 \<le> beta (reset ag)" using assms(3) by (simp add: reset_def)
  have k: "\<forall>z x. kernel_func w z (kernel_type (reset ag)) = Inr x \<longrightarrow> 0 \<le> x"
    using assms(4) by (simp add: reset_def)
  have r0: "bounded_table (min 0 r_min) (max 0 r_max) (R_hat (reset ag))"
    by (rule reset_bounded) simp_all
  have rs: "\<forall>(s, a, s', r)\<in>set ts. min 0 r_min \<le> r \<and> r \<le> max 0 r_max"
    using assms(2) by fastforce
  from updates_inv [OF assms(1) reset_mass_inv b k, of "min 0 r_min" "max 0 r_max"] r0 rs
  have "bounded_table (min 0 r_min) (max 0 r_max) (R_hat ag')" by blast
  then have g: "\<forall>row\<in>set (R_hat ag'). \<forall>x\<in>set row. min 0 r_min \<le> x \<and> x \<le> max 0 r_max"
    by (simp add: bounded_table_def list_all_iff)
  then show ?thesis by (auto simp: min_def max_def split: if_splits)
qed

theorem R_hat_bounded_witness:
  "updates demo_world (reset (demo_agent 2 1 0))
     [([1 / 10], 0, [9 / 10], 2), ([9 / 10], 1, [1 / 10], 3)]
     = Inr (projr (updates demo_world (reset (demo_agent 2 1 0))
                     [([1 / 10], 0, [9 / 10], 2), ([9 / 10], 1, [1 / 10], 3)]))
   \<and> list_all (list_all (\<lambda>x. min 0 2 \<le> x \<and> x \<le> max 0 3))
        (R_hat (projr (updates demo_world (reset (demo_agent 2 1 0))
                         [([1 / 10], 0, [9 / 10], 2), ([9 / 10], 1, [1 / 10], 3)])))"
proof -
  let ?ag = "demo_agent 2 1 0"
  let ?ts = "[([1 / 10], 0::nat, [9 / 10], 2::real), ([9 / 10], 1, [1 / 10], 3)]"
  let ?r = "projr (updates demo_world (reset ?ag) ?ts)"
  have "\<exists>x. updates demo_world (reset ?ag) ?ts = Inr x"
    by (simp add: ev)
  then have h1: "updates demo_world (reset ?ag) ?ts = Inr ?r" by auto
  have h2: "\<forall>(s, a, s', r)\<in>set ?ts. (2::real) \<le> r \<and> r \<le> 3" by simp
  have h3: "0 \<le> beta ?ag" by (simp add: demo_agent_def reset_def)
  have h4: "\<forall>z x. kernel_func demo_world z (kernel_type ?ag) = Inr x \<longrightarrow> 0 \<le> x"
    using kernel_func_spec_nonneg by (simp add: demo_world_def)
  from R_hat_bounded [OF h1 h2 h3 h4] h1 show ?thesis
    by (simp add: list_all_iff)
qed

theorem R_hat_bounded_counterexample:
  "update_model metric_lp_spec kernel_func_spec 0 0 0 2 1 [[1 / 10]] \<infinity> [1] 1 0 1 1
     ''simplified_bernstein'' ''epanechnikov'' [[0]] [[Val 1]] [[[0]]] [[0]]
     = Inr ([[1]], [[Val 1]], [[[1 / 2]]], [[1]])
   \<and> \<not> (2 \<le> (1::real))"
  by (simp add: ev)

subsection \<open>Updates return\<close>

text \<open>
  On a well-formed agent with room for a representative, a positive \<open>beta\<close>, a bandwidth
  other than zero, the known bonus type and a kernel that accepts its type and gives
  weights that are not negative, \<^verbatim>\<open>_update\<close> raises nothing for an action below \<open>A\<close>, and
  leaves a well-formed agent. So the invariants above speak of every such run.
\<close>

lemma shaped_in_table: "shaped r c t \<Longrightarrow> i < r \<Longrightarrow> j < c \<Longrightarrow> in_table t i j"
  by (simp add: shaped_def in_table_def list_all_length)

lemma list_all_update:
  assumes "list_all pr t" and "i < length t \<Longrightarrow> pr x"
  shows "list_all pr (t[i := x])"
proof (cases "i < length t")
  case True
  with assms show ?thesis by (simp add: list_all_length nth_list_update)
next
  case False
  then have "t[i := x] = t" by (metis list_update_beyond not_le_imp_less)
  with assms(1) show ?thesis by simp
qed

lemma shaped_set_cell:
  assumes "shaped r c t"
  shows "shaped r c (set_cell t i j v)"
proof -
  from assms have l: "length t = r" and a: "list_all (\<lambda>row. length row = c) t"
    by (simp_all add: shaped_def)
  have "length ((t ! i)[j := v]) = c" if "i < length t"
    using that a by (simp add: list_all_length)
  then have "list_all (\<lambda>row. length row = c) (t[i := (t ! i)[j := v]])"
    using a by (intro list_all_update)
  then show ?thesis using l by (simp add: shaped_def set_cell_def)
qed

lemma shaped_P_set_cell:
  assumes "length P = r" and "list_all (shaped a c) P" and "length row = c"
  shows "length (set_cell P u j row) = r \<and> list_all (shaped a c) (set_cell P u j row)"
proof -
  have "shaped a c ((P ! u)[j := row])" if "u < length P"
  proof -
    from that assms(2) have "shaped a c (P ! u)" by (simp add: list_all_length)
    then show ?thesis unfolding shaped_def using assms(3)
      by (auto intro!: list_all_update)
  qed
  then have "list_all (shaped a c) (P[u := (P ! u)[j := row]])"
    using assms(2) by (intro list_all_update)
  then show ?thesis using assms(1) by (simp add: set_cell_def)
qed

lemma P_row_length:
  assumes "list_all (shaped a c) P" and "u < length P" and "j < a"
  shows "in_table P u j \<and> length (P ! u ! j) = c"
  using assms by (simp add: shaped_def in_table_def list_all_length)

lemma py_index_nonneg: "0 \<le> i \<Longrightarrow> i < int n \<Longrightarrow> py_index n i = Inr (nat i)"
  by (simp add: py_index_def)

lemma update_row_total:
  assumes sh: "shaped cap na N" "shaped cap na B" "shaped cap na R"
      "length P = cap" "list_all (shaped na cap) P"
    and mi: "mass_inv bet n N P"
    and u: "u < n" and n: "n \<le> cap" and reprs: "length reprs = cap"
    and rs: "0 \<le> rs" "rs < int n" and a: "a < na"
    and bw: "bw \<noteq> 0" and bet: "0 < bet"
    and kf: "\<forall>z. \<exists>x. kf z kt = Inr x \<and> 0 \<le> x"
  shows "\<exists>N' B' P' R'.
      update_row m kf rs a d r n reprs lp sc bw bsf bet vm ''simplified_bernstein'' kt u (N, B, P, R)
        = Inr (N', B', P', R')
      \<and> shaped cap na N' \<and> shaped cap na B' \<and> shaped cap na R'
      \<and> length P' = cap \<and> list_all (shaped na cap) P'"
proof -
  have uc: "u < cap" using u n by simp
  have px: "py_index (length reprs) rs = Inr (nat rs)"
    using rs n reprs by (intro py_index_nonneg) simp_all
  obtain w where w: "kf (m (reprs ! nat rs) (reprs ! u) lp sc / bw) kt = Inr w" and w0: "0 \<le> w"
    using kf by blast
  have iN: "in_table N u a" and iB: "in_table B u a" and iR: "in_table R u a"
    using sh uc a by (simp_all add: shaped_in_table)
  have iP: "in_table P u a" and lP: "length (P ! u ! a) = cap"
    using P_row_length [OF sh(5), of u a] sh(4) uc a by simp_all
  have "row_mass bet n (N ! u ! a) (P ! u ! a)" using mass_inv_cell [OF mi iN] by simp
  then have Nv: "0 \<le> N ! u ! a" by (simp add: row_mass_def)
  have c: "bet + N ! u ! a + w \<noteq> 0" using bet Nv w0 by linarith
  have nv: "0 < bet + (N ! u ! a + w)" using bet Nv w0 by linarith
  have cell: "set_cell N u a (N ! u ! a + w) ! u ! a = N ! u ! a + w"
    using iN by (simp add: set_cell_def in_table_def)
  have cb: "compute_bonus (set_cell N u a (N ! u ! a + w) ! u ! a) bet bsf vm ''simplified_bernstein''
      = Inr (Val (bsf * sqrt (1 / (bet + (N ! u ! a + w))) + (1 + bet) * vm / (bet + (N ! u ! a + w))))"
    unfolding cell by (rule compute_bonus_value [OF nv])
  let ?row = "map (\<lambda>j. d ! j * w / (bet + N ! u ! a + w)
                  + ((bet + N ! u ! a) / (bet + N ! u ! a + w)) * P ! u ! a ! j) [0..<n]
              @ drop n (P ! u ! a)"
  have lr: "length ?row = cap" using lP n by simp
  have e: "update_row m kf rs a d r n reprs lp sc bw bsf bet vm ''simplified_bernstein'' kt u (N, B, P, R)
      = Inr (set_cell N u a (N ! u ! a + w),
             set_cell B u a (Val (bsf * sqrt (1 / (bet + (N ! u ! a + w)))
                                  + (1 + bet) * vm / (bet + (N ! u ! a + w)))),
             set_cell P u a ?row,
             set_cell R u a (w * r / (bet + N ! u ! a + w)
                             + ((bet + N ! u ! a) / (bet + N ! u ! a + w)) * R ! u ! a))"
    using px uc reprs bw w iN iB iR iP lP n c cb
    by (simp add: update_row_def Let_def)
  show ?thesis
    unfolding e using sh shaped_P_set_cell [OF sh(4,5) lr]
    by (simp add: shaped_set_cell)
qed

lemma update_loop_total:
  assumes sh: "shaped cap na N" "shaped cap na B" "shaped cap na R"
      "length P = cap" "list_all (shaped na cap) P"
    and mi: "mass_inv bet n N P"
    and n: "n \<le> cap" and reprs: "length reprs = cap"
    and rs: "0 \<le> rs" "rs < int n" and a: "a < na" and k: "k < n"
    and bw: "bw \<noteq> 0" and bet: "0 < bet"
    and kf: "\<forall>z. \<exists>x. kf z kt = Inr x \<and> 0 \<le> x"
    and j: "j \<le> n"
  shows "\<exists>N' B' P' R'.
      update_loop m kf rs a ((replicate n 0)[k := 1]) r n reprs lp sc bw bsf bet vm
        ''simplified_bernstein'' kt (N, B, P, R) j = Inr (N', B', P', R')
      \<and> shaped cap na N' \<and> shaped cap na B' \<and> shaped cap na R'
      \<and> length P' = cap \<and> list_all (shaped na cap) P' \<and> mass_inv bet n N' P'"
  using j
proof (induction j)
  case 0
  then show ?case using sh mi by simp
next
  case (Suc j)
  then obtain N1 B1 P1 R1 where
    l: "update_loop m kf rs a ((replicate n 0)[k := 1]) r n reprs lp sc bw bsf bet vm
        ''simplified_bernstein'' kt (N, B, P, R) j = Inr (N1, B1, P1, R1)"
    and s1: "shaped cap na N1" "shaped cap na B1" "shaped cap na R1"
      "length P1 = cap" "list_all (shaped na cap) P1"
    and m1: "mass_inv bet n N1 P1"
    by auto
  have jn: "j < n" using Suc.prems by simp
  have "\<exists>N' B' P' R'.
      update_row m kf rs a ((replicate n 0)[k := 1]) r n reprs lp sc bw bsf bet vm
        ''simplified_bernstein'' kt j (N1, B1, P1, R1) = Inr (N', B', P', R')
      \<and> shaped cap na N' \<and> shaped cap na B' \<and> shaped cap na R'
      \<and> length P' = cap \<and> list_all (shaped na cap) P'"
    by (rule update_row_total; fact)
  then obtain N' B' P' R' where
    u: "update_row m kf rs a ((replicate n 0)[k := 1]) r n reprs lp sc bw bsf bet vm
        ''simplified_bernstein'' kt j (N1, B1, P1, R1) = Inr (N', B', P', R')"
    and s': "shaped cap na N'" "shaped cap na B'" "shaped cap na R'"
      "length P' = cap" "list_all (shaped na cap) P'"
    by blast
  have b0: "0 \<le> bet" using bet by simp
  have kn: "\<forall>z w. kf z kt = Inr w \<longrightarrow> 0 \<le> w"
  proof (intro allI impI)
    fix z w assume "kf z kt = Inr w"
    moreover obtain x where "kf z kt = Inr x \<and> 0 \<le> x" using kf by blast
    ultimately show "0 \<le> w" by simp
  qed
  from update_row_inv [OF u m1 b0 kn k, of 0 0] have m': "mass_inv bet n N' P'" by simp
  show ?case using l u s' m' by simp
qed

lemma update_model_total:
  assumes sh: "shaped cap na N" "shaped cap na B" "shaped cap na R"
      "length P = cap" "list_all (shaped na cap) P"
    and mi: "mass_inv bet n N P"
    and n: "n \<le> cap" and reprs: "length reprs = cap"
    and rs: "0 \<le> rs" "rs < int n" and nxt: "0 \<le> nxt" "nxt < int n" and a: "a < na"
    and bw: "bw \<noteq> 0" and bet: "0 < bet"
    and kf: "\<forall>z. \<exists>x. kf z kt = Inr x \<and> 0 \<le> x"
  shows "\<exists>N' B' P' R'.
      update_model m kf rs a nxt r n reprs lp sc bw bsf bet vm ''simplified_bernstein'' kt N B P R
        = Inr (N', B', P', R')
      \<and> shaped cap na N' \<and> shaped cap na B' \<and> shaped cap na R'
      \<and> length P' = cap \<and> list_all (shaped na cap) P' \<and> mass_inv bet n N' P'"
proof -
  have px: "py_index n nxt = Inr (nat nxt)" using nxt by (intro py_index_nonneg)
  have k: "nat nxt < n" using nxt by simp
  have le: "n \<le> n" by simp
  have "\<exists>N' B' P' R'.
      update_loop m kf rs a ((replicate n 0)[nat nxt := 1]) r n reprs lp sc bw bsf bet vm
        ''simplified_bernstein'' kt (N, B, P, R) n = Inr (N', B', P', R')
      \<and> shaped cap na N' \<and> shaped cap na B' \<and> shaped cap na R'
      \<and> length P' = cap \<and> list_all (shaped na cap) P' \<and> mass_inv bet n N' P'"
    by (rule update_loop_total; fact)
  then show ?thesis by (simp add: update_model_def px)
qed

lemma map_to_repr_wf:
  assumes wf: "wf_agent ag" and cap: "0 < max_repr ag"
  shows "\<exists>idx ag'. map_to_repr w ag s True = Inr (idx, ag')
     \<and> 0 \<le> idx \<and> idx < int (M ag') \<and> M ag \<le> M ag' \<and> wf_agent ag'
     \<and> max_repr ag' = max_repr ag \<and> A ag' = A ag \<and> beta ag' = beta ag
     \<and> bandwidth ag' = bandwidth ag \<and> bonus_type ag' = bonus_type ag
     \<and> kernel_type ag' = kernel_type ag \<and> N_sa ag' = N_sa ag \<and> P_hat ag' = P_hat ag"
proof -
  from wf have n: "M ag \<le> length (representative_states ag)"
    and l: "length (representative_states ag) = max_repr ag" and m: "M ag \<le> max_repr ag"
    by (simp_all add: wf_agent_def)
  from map_to_representative_cases [OF n, of "metric_lp w" s "lp_metric ag" "min_dist ag"
      "scaling ag" True]
  show ?thesis
  proof
    assume "\<exists>j. map_to_representative (metric_lp w) s (lp_metric ag) (representative_states ag)
          (M ag) (min_dist ag) (scaling ag) True = Inr (j, representative_states ag)
        \<and> - 1 \<le> j \<and> j < int (M ag) \<and> (0 < M ag \<longrightarrow> 0 \<le> j)
        \<and> \<not> ((\<forall>i<M ag. min_dist ag < metric_lp w s (representative_states ag ! i) (lp_metric ag) (scaling ag))
             \<and> M ag < length (representative_states ag) \<and> True)"
    then obtain j where e: "map_to_representative (metric_lp w) s (lp_metric ag)
          (representative_states ag) (M ag) (min_dist ag) (scaling ag) True
          = Inr (j, representative_states ag)"
      and j: "- 1 \<le> j" "j < int (M ag)" "0 < M ag \<longrightarrow> 0 \<le> j"
      and nc: "\<not> ((\<forall>i<M ag. min_dist ag < metric_lp w s (representative_states ag ! i) (lp_metric ag) (scaling ag))
             \<and> M ag < length (representative_states ag))"
      by auto
    have "0 < M ag" using nc l cap by (cases "M ag") auto
    with j have j0: "0 \<le> j" by simp
    have "map_to_repr w ag s True = Inr (j, ag)"
      using e j by (simp add: map_to_repr_def Let_def)
    then show ?thesis using j j0 wf by auto
  next
    assume c: "map_to_representative (metric_lp w) s (lp_metric ag) (representative_states ag)
          (M ag) (min_dist ag) (scaling ag) True
          = Inr (int (M ag), (representative_states ag)[M ag := s])
        \<and> (\<forall>i<M ag. min_dist ag < metric_lp w s (representative_states ag ! i) (lp_metric ag) (scaling ag))
        \<and> M ag < length (representative_states ag) \<and> True"
    then have "map_to_repr w ag s True
        = Inr (int (M ag), ag\<lparr>representative_states := (representative_states ag)[M ag := s],
                               M := M ag + 1\<rparr>)"
      by (simp add: map_to_repr_def Let_def)
    moreover have "wf_agent (ag\<lparr>representative_states := (representative_states ag)[M ag := s],
                               M := M ag + 1\<rparr>)"
      using wf c by (simp add: wf_agent_def)
    ultimately show ?thesis by simp
  qed
qed

lemma update_total:
  assumes wf: "wf_agent ag" and cap: "0 < max_repr ag"
    and mi: "mass_inv (beta ag) (M ag) (N_sa ag) (P_hat ag)"
    and a: "a < A ag" and bet: "0 < beta ag" and bw: "bandwidth ag \<noteq> 0"
    and bt: "bonus_type ag = ''simplified_bernstein''"
    and kf: "\<forall>z. \<exists>x. kernel_func w z (kernel_type ag) = Inr x \<and> 0 \<le> x"
  shows "\<exists>ag'. update w ag s a s' r = Inr ag' \<and> wf_agent ag'
     \<and> mass_inv (beta ag') (M ag') (N_sa ag') (P_hat ag')
     \<and> max_repr ag' = max_repr ag \<and> A ag' = A ag \<and> beta ag' = beta ag
     \<and> bandwidth ag' = bandwidth ag \<and> bonus_type ag' = bonus_type ag
     \<and> kernel_type ag' = kernel_type ag"
proof -
  from map_to_repr_wf [OF wf cap, of w s] obtain i1 ag1 where
    m1: "map_to_repr w ag s True = Inr (i1, ag1)" and i1: "0 \<le> i1" "i1 < int (M ag1)"
    and le1: "M ag \<le> M ag1" and wf1: "wf_agent ag1"
    and f1: "max_repr ag1 = max_repr ag" "A ag1 = A ag" "beta ag1 = beta ag"
      "bandwidth ag1 = bandwidth ag" "bonus_type ag1 = bonus_type ag"
      "kernel_type ag1 = kernel_type ag" "N_sa ag1 = N_sa ag" "P_hat ag1 = P_hat ag"
    by blast
  have cap1: "0 < max_repr ag1" using cap f1 by simp
  from map_to_repr_wf [OF wf1 cap1, of w s'] obtain i2 ag2 where
    m2: "map_to_repr w ag1 s' True = Inr (i2, ag2)" and i2: "0 \<le> i2" "i2 < int (M ag2)"
    and le2: "M ag1 \<le> M ag2" and wf2: "wf_agent ag2"
    and g2: "max_repr ag2 = max_repr ag1" "A ag2 = A ag1" "beta ag2 = beta ag1"
      "bandwidth ag2 = bandwidth ag1" "bonus_type ag2 = bonus_type ag1"
      "kernel_type ag2 = kernel_type ag1" "N_sa ag2 = N_sa ag1" "P_hat ag2 = P_hat ag1"
    by blast
  have f2: "max_repr ag2 = max_repr ag" "A ag2 = A ag" "beta ag2 = beta ag"
    "bandwidth ag2 = bandwidth ag" "bonus_type ag2 = bonus_type ag"
    "kernel_type ag2 = kernel_type ag" "N_sa ag2 = N_sa ag" "P_hat ag2 = P_hat ag"
    using f1 g2 by simp_all
  have sh: "shaped (max_repr ag2) (A ag2) (N_sa ag2)" "shaped (max_repr ag2) (A ag2) (B_sa ag2)"
    "shaped (max_repr ag2) (A ag2) (R_hat ag2)" "length (P_hat ag2) = max_repr ag2"
    "list_all (shaped (A ag2) (max_repr ag2)) (P_hat ag2)"
    and n: "M ag2 \<le> max_repr ag2" and reprs: "length (representative_states ag2) = max_repr ag2"
    using wf2 by (simp_all add: wf_agent_def)
  have le: "M ag \<le> M ag2" using le1 le2 by simp
  have mi2: "mass_inv (beta ag2) (M ag2) (N_sa ag2) (P_hat ag2)"
    unfolding f2 by (rule mass_inv_mono [OF mi le])
  have rs: "0 \<le> i1" "i1 < int (M ag2)" using i1 le2 by simp_all
  have a2: "a < A ag2" using a f2 by simp
  have bw2: "bandwidth ag2 \<noteq> 0" and bet2: "0 < beta ag2"
    and kf2: "\<forall>z. \<exists>x. kernel_func w z (kernel_type ag2) = Inr x \<and> 0 \<le> x"
    using bw bet kf f2 by simp_all
  have bt2: "bonus_type ag2 = ''simplified_bernstein''" using bt f2 by simp
  have "\<exists>N' B' P' R'.
      update_model (metric_lp w) (kernel_func w) i1 a i2 r (M ag2) (representative_states ag2)
        (lp_metric ag2) (scaling ag2) (bandwidth ag2) (bonus_scale_factor ag2) (beta ag2)
        (v_max ag2) ''simplified_bernstein'' (kernel_type ag2) (N_sa ag2) (B_sa ag2) (P_hat ag2)
        (R_hat ag2) = Inr (N', B', P', R')
      \<and> shaped (max_repr ag2) (A ag2) N' \<and> shaped (max_repr ag2) (A ag2) B'
      \<and> shaped (max_repr ag2) (A ag2) R'
      \<and> length P' = max_repr ag2 \<and> list_all (shaped (A ag2) (max_repr ag2)) P'
      \<and> mass_inv (beta ag2) (M ag2) N' P'"
    by (rule update_model_total; fact)
  then obtain N' B' P' R' where
    um: "update_model (metric_lp w) (kernel_func w) i1 a i2 r (M ag2) (representative_states ag2)
        (lp_metric ag2) (scaling ag2) (bandwidth ag2) (bonus_scale_factor ag2) (beta ag2)
        (v_max ag2) (bonus_type ag2) (kernel_type ag2) (N_sa ag2) (B_sa ag2) (P_hat ag2)
        (R_hat ag2) = Inr (N', B', P', R')"
    and s': "shaped (max_repr ag2) (A ag2) N'" "shaped (max_repr ag2) (A ag2) B'"
      "shaped (max_repr ag2) (A ag2) R'" "length P' = max_repr ag2"
      "list_all (shaped (A ag2) (max_repr ag2)) P'"
    and m': "mass_inv (beta ag2) (M ag2) N' P'"
    unfolding bt2 by blast
  have e: "update w ag s a s' r = Inr (ag2\<lparr>N_sa := N', B_sa := B', P_hat := P', R_hat := R'\<rparr>)"
    unfolding update_def m1 bnd_Inr prod.case m2 um by simp
  have wf': "wf_agent (ag2\<lparr>N_sa := N', B_sa := B', P_hat := P', R_hat := R'\<rparr>)"
    using s' n reprs by (simp add: wf_agent_def)
  have m'': "mass_inv (beta (ag2\<lparr>N_sa := N', B_sa := B', P_hat := P', R_hat := R'\<rparr>))
      (M (ag2\<lparr>N_sa := N', B_sa := B', P_hat := P', R_hat := R'\<rparr>))
      (N_sa (ag2\<lparr>N_sa := N', B_sa := B', P_hat := P', R_hat := R'\<rparr>))
      (P_hat (ag2\<lparr>N_sa := N', B_sa := B', P_hat := P', R_hat := R'\<rparr>))"
    using m' by simp
  show ?thesis
    using e wf' m'' f2
    by (intro exI [where x = "ag2\<lparr>N_sa := N', B_sa := B', P_hat := P', R_hat := R'\<rparr>"]) simp
qed

lemma reset_wf: "wf_agent (reset ag)"
  by (simp add: wf_agent_def reset_def shaped_def list_all_length)

lemma updates_total:
  assumes "wf_agent ag" and "0 < max_repr ag"
    and "mass_inv (beta ag) (M ag) (N_sa ag) (P_hat ag)"
    and "\<forall>(s, a, s', r)\<in>set ts. a < A ag" and "0 < beta ag" and "bandwidth ag \<noteq> 0"
    and "bonus_type ag = ''simplified_bernstein''"
    and "\<forall>z. \<exists>x. kernel_func w z (kernel_type ag) = Inr x \<and> 0 \<le> x"
  shows "\<exists>ag'. updates w ag ts = Inr ag'"
  using assms
proof (induction ts arbitrary: ag)
  case Nil
  then show ?case by simp
next
  case (Cons t ts)
  obtain s a s' r where t: "t = (s, a, s', r)" by (cases t) auto
  have a: "a < A ag" using Cons.prems(4) by (simp add: t)
  from update_total [OF Cons.prems(1,2,3) a Cons.prems(5,6,7,8), of s s' r]
  obtain ag1 where u: "update w ag s a s' r = Inr ag1" and wf1: "wf_agent ag1"
    and m1: "mass_inv (beta ag1) (M ag1) (N_sa ag1) (P_hat ag1)"
    and f: "max_repr ag1 = max_repr ag" "A ag1 = A ag" "beta ag1 = beta ag"
      "bandwidth ag1 = bandwidth ag" "bonus_type ag1 = bonus_type ag"
      "kernel_type ag1 = kernel_type ag"
    by blast
  have "\<exists>ag'. updates w ag1 ts = Inr ag'"
    using Cons.prems f wf1 m1 by (intro Cons.IH) simp_all
  then show ?case using u by (simp add: t)
qed

lemma updates_returns:
  assumes "0 < max_repr ag" and "0 < beta ag" and "bandwidth ag \<noteq> 0"
    and "bonus_type ag = ''simplified_bernstein''"
    and "\<forall>z. \<exists>x. kernel_func w z (kernel_type ag) = Inr x \<and> 0 \<le> x"
    and "\<forall>(s, a, s', r)\<in>set ts. a < A ag"
  shows "\<exists>ag'. updates w (reset ag) ts = Inr ag'"
proof -
  have c: "max_repr (reset ag) = max_repr ag" "beta (reset ag) = beta ag"
    "bandwidth (reset ag) = bandwidth ag" "bonus_type (reset ag) = bonus_type ag"
    "kernel_type (reset ag) = kernel_type ag" "A (reset ag) = A ag"
    by (simp_all add: reset_def)
  show ?thesis
    using assms unfolding c [symmetric]
    by (intro updates_total reset_wf reset_mass_inv)
qed

subsection \<open>The episode loop and \<open>fit\<close>\<close>

lemma map_to_repr_log:
  assumes "map_to_repr w ag s acc = Inr (idx, ag')"
  shows "rewards ag' = rewards ag \<and> cumul_rewards ag' = cumul_rewards ag
         \<and> n_episodes ag' = n_episodes ag \<and> Q_policy ag' = Q_policy ag"
proof -
  from assms obtain p where p: "map_to_representative (metric_lp w) s (lp_metric ag)
      (representative_states ag) (M ag) (min_dist ag) (scaling ag) acc = Inr p"
    unfolding map_to_repr_def by (rule bnd_InrE)
  obtain i reprs where "p = (i, reprs)" by (cases p) auto
  with assms p show ?thesis
    by (cases "i = int (M ag)") (auto simp: map_to_repr_def Let_def)
qed

lemma get_action_log:
  assumes "get_action w ag s hh = Inr (a, ag')"
  shows "rewards ag' = rewards ag \<and> cumul_rewards ag' = cumul_rewards ag
         \<and> n_episodes ag' = n_episodes ag \<and> Q_policy ag' = Q_policy ag"
proof (cases "Q ag")
  case None
  with assms show ?thesis by (simp add: get_action_def)
next
  case (Some q)
  with assms obtain p where p: "map_to_repr w ag s False = Inr p"
    and r: "(case p of (repr_state, ag1) \<Rightarrow>
               bnd (greedy (gamma ag1) q hh repr_state) (\<lambda>a. Inr (a, ag1))) = Inr (a, ag')"
    by (auto simp: get_action_def elim: bnd_InrE)
  obtain i ag1 where p1: "p = (i, ag1)" by (cases p) auto
  from r have "ag' = ag1" by (auto simp: p1 elim!: bnd_InrE)
  with map_to_repr_log [OF p [unfolded p1]] show ?thesis by simp
qed

lemma update_log:
  assumes "update w ag s a s' r = Inr ag'"
  shows "rewards ag' = rewards ag \<and> cumul_rewards ag' = cumul_rewards ag
         \<and> n_episodes ag' = n_episodes ag \<and> Q_policy ag' = Q_policy ag"
proof -
  from assms obtain p1 where m1: "map_to_repr w ag s True = Inr p1"
    and r1: "(case p1 of (repr_state, ag1) \<Rightarrow>
       bnd (map_to_repr w ag1 s' True) (\<lambda>(repr_next_state, ag2).
       bnd (update_model (metric_lp w) (kernel_func w) repr_state a repr_next_state r
              (M ag2) (representative_states ag2) (lp_metric ag2) (scaling ag2) (bandwidth ag2)
              (bonus_scale_factor ag2) (beta ag2) (v_max ag2) (bonus_type ag2) (kernel_type ag2)
              (N_sa ag2) (B_sa ag2) (P_hat ag2) (R_hat ag2))
         (\<lambda>(N_sa', B_sa', P_hat', R_hat').
            Inr (ag2\<lparr>N_sa := N_sa', B_sa := B_sa', P_hat := P_hat', R_hat := R_hat'\<rparr>)))) = Inr ag'"
    unfolding update_def by (rule bnd_InrE)
  obtain i1 ag1 where p1: "p1 = (i1, ag1)" by (cases p1) auto
  from r1 [unfolded p1] obtain p2 where m2: "map_to_repr w ag1 s' True = Inr p2"
    and r2: "(case p2 of (repr_next_state, ag2) \<Rightarrow>
       bnd (update_model (metric_lp w) (kernel_func w) i1 a repr_next_state r
              (M ag2) (representative_states ag2) (lp_metric ag2) (scaling ag2) (bandwidth ag2)
              (bonus_scale_factor ag2) (beta ag2) (v_max ag2) (bonus_type ag2) (kernel_type ag2)
              (N_sa ag2) (B_sa ag2) (P_hat ag2) (R_hat ag2))
         (\<lambda>(N_sa', B_sa', P_hat', R_hat').
            Inr (ag2\<lparr>N_sa := N_sa', B_sa := B_sa', P_hat := P_hat', R_hat := R_hat'\<rparr>))) = Inr ag'"
    by (auto elim: bnd_InrE)
  obtain i2 ag2 where p2: "p2 = (i2, ag2)" by (cases p2) auto
  from r2 [unfolded p2] obtain t where
    r3: "(case t of (N_sa', B_sa', P_hat', R_hat') \<Rightarrow>
            Inr (ag2\<lparr>N_sa := N_sa', B_sa := B_sa', P_hat := P_hat', R_hat := R_hat'\<rparr>)) = Inr ag'"
    by (auto elim: bnd_InrE)
  obtain N' B' P' R' where "t = (N', B', P', R')" by (cases t) auto
  with r3 have "ag' = ag2\<lparr>N_sa := N', B_sa := B', P_hat := P', R_hat := R'\<rparr>" by simp
  with map_to_repr_log [OF m1 [unfolded p1]] map_to_repr_log [OF m2 [unfolded p2]]
  show ?thesis by simp
qed

lemma episode_steps_log:
  assumes "episode_steps w (ag, s, x) k = Inr (ag', s', x')"
  shows "rewards ag' = rewards ag \<and> cumul_rewards ag' = cumul_rewards ag
         \<and> n_episodes ag' = n_episodes ag \<and> Q_policy ag' = Q_policy ag"
  using assms
proof (induction k arbitrary: ag' s' x')
  case 0
  then show ?case by simp
next
  case (Suc k)
  from Suc.prems obtain t where t: "episode_steps w (ag, s, x) k = Inr t"
    and r: "(case t of (ag, state, episode_rewards) \<Rightarrow>
     bnd (get_action w ag state (int k)) (\<lambda>(action, ag1).
       case env_step w (env ag1) action of ((next_state, reward, done), e) \<Rightarrow>
         bnd (update w (ag1\<lparr>env := e\<rparr>) state action next_state reward) (\<lambda>ag2.
           Inr (ag2, next_state, episode_rewards + reward)))) = Inr (ag', s', x')"
    by (auto elim: bnd_InrE)
  obtain ag0 s0 x0 where t0: "t = (ag0, s0, x0)" by (cases t) auto
  note ih = Suc.IH [OF t [unfolded t0]]
  from r [unfolded t0] obtain p where g: "get_action w ag0 s0 (int k) = Inr p"
    and r2: "(case p of (action, ag1) \<Rightarrow>
       case env_step w (env ag1) action of ((next_state, reward, done), e) \<Rightarrow>
         bnd (update w (ag1\<lparr>env := e\<rparr>) s0 action next_state reward) (\<lambda>ag2.
           Inr (ag2, next_state, x0 + reward))) = Inr (ag', s', x')"
    by (auto elim: bnd_InrE)
  obtain a ag1 where p: "p = (a, ag1)" by (cases p) auto
  obtain ns rw dn e where st: "env_step w (env ag1) a = ((ns, rw, dn), e)"
    by (cases "env_step w (env ag1) a") auto
  from r2 [unfolded p] st obtain ag2 where
    u: "update w (ag1\<lparr>env := e\<rparr>) s0 a ns rw = Inr ag2" and "ag' = ag2"
    by (auto elim!: bnd_InrE)
  with ih get_action_log [OF g [unfolded p]] update_log [OF u]
  show ?case by simp
qed

lemma run_episode_log:
  assumes "run_episode w ag = Inr (x, ag')"
  shows "rewards ag' = rewards ag \<and> cumul_rewards ag' = cumul_rewards ag
         \<and> n_episodes ag' = n_episodes ag \<and> Q_policy ag' = Q_policy ag"
proof -
  obtain s e where re: "env_reset w (env ag) = (s, e)" by (cases "env_reset w (env ag)") auto
  from assms [unfolded run_episode_def re] obtain t where
    t: "episode_steps w (ag\<lparr>env := e\<rparr>, s, 0) (horizon ag) = Inr t"
    and r: "(case t of (ag1, _, episode_rewards) \<Rightarrow>
        case Q ag1 of None \<Rightarrow> Inl TypeError
        | Some q \<Rightarrow>
           (case backward_induction_in_place w (view (M ag1) q) (view (M ag1) (V ag1))
                   (add_bonus (take (M ag1) (R_hat ag1)) (take (M ag1) (B_sa ag1)))
                   (active_P (M ag1) (P_hat ag1)) (horizon ag1) (gamma ag1) (v_max ag1)
            of (q', v') \<Rightarrow>
              Inr (episode_rewards,
                   ag1\<lparr>Q := Some (write_view (M ag1) q' q),
                       V := write_view (M ag1) v' (V ag1)\<rparr>))) = Inr (x, ag')"
    by (auto elim: bnd_InrE)
  obtain ag1 s1 x1 where t1: "t = (ag1, s1, x1)" by (cases t) auto
  from r [unfolded t1] have "rewards ag' = rewards ag1 \<and> cumul_rewards ag' = cumul_rewards ag1
         \<and> n_episodes ag' = n_episodes ag1 \<and> Q_policy ag' = Q_policy ag1"
    by (auto split: option.splits prod.splits)
  with episode_steps_log [OF t [unfolded t1]] show ?thesis by simp
qed

lemma fit_loop_inv:
  assumes "fit_loop w ag0 k = Inr ag'"
    and "rewards ag0 = replicate n 0" and "cumul_rewards ag0 = replicate n 0"
  shows "length (rewards ag') = n \<and> length (cumul_rewards ag') = n \<and> k \<le> n
       \<and> (\<forall>kk. k \<le> kk \<and> kk < n \<longrightarrow> cumul_rewards ag' ! kk = 0)
       \<and> (0 < n \<longrightarrow> cumul_rewards ag' ! 0 = 0)
       \<and> (\<forall>kk. 1 \<le> kk \<and> kk < k \<longrightarrow>
             cumul_rewards ag' ! kk = rewards ag' ! kk + cumul_rewards ag' ! (kk - 1))
       \<and> Q_policy ag' = Q_policy ag0 \<and> n_episodes ag' = n_episodes ag0"
  using assms(1)
proof (induction k arbitrary: ag')
  case 0
  then show ?case using assms(2,3) by simp
next
  case (Suc k)
  from Suc.prems obtain ag1 where l: "fit_loop w ag0 k = Inr ag1"
    and r: "bnd (run_episode w ag1) (\<lambda>(episode_rewards, ag1).
       if \<not> k < length (rewards ag1) then Inl IndexError
       else
        (let ag2 = ag1\<lparr>rewards := (rewards ag1)[k := episode_rewards]\<rparr> in
         if k > 0 then
           (if \<not> k < length (cumul_rewards ag2) then Inl IndexError
            else Inr (ag2\<lparr>cumul_rewards :=
                            (cumul_rewards ag2)[k := episode_rewards + cumul_rewards ag2 ! (k - 1)],
                          episode := episode ag2 + 1\<rparr>))
         else Inr (ag2\<lparr>episode := episode ag2 + 1\<rparr>))) = Inr ag'"
    by (auto elim: bnd_InrE)
  from r obtain p where re: "run_episode w ag1 = Inr p"
    and r2: "(case p of (episode_rewards, ag1) \<Rightarrow>
       if \<not> k < length (rewards ag1) then Inl IndexError
       else
        (let ag2 = ag1\<lparr>rewards := (rewards ag1)[k := episode_rewards]\<rparr> in
         if k > 0 then
           (if \<not> k < length (cumul_rewards ag2) then Inl IndexError
            else Inr (ag2\<lparr>cumul_rewards :=
                            (cumul_rewards ag2)[k := episode_rewards + cumul_rewards ag2 ! (k - 1)],
                          episode := episode ag2 + 1\<rparr>))
         else Inr (ag2\<lparr>episode := episode ag2 + 1\<rparr>))) = Inr ag'"
    by (rule bnd_InrE)
  obtain e ag2 where p: "p = (e, ag2)" by (cases p) auto
  note ih = Suc.IH [OF l]
  note fr = run_episode_log [OF re [unfolded p]]
  have len: "length (rewards ag2) = n" "length (cumul_rewards ag2) = n" using ih fr by simp_all
  from r2 [unfolded p] have kn: "k < n" using len by (auto split: if_splits)
  show ?case
  proof (cases "k = 0")
    case True
    with r2 [unfolded p] kn len have "ag' = ag2\<lparr>rewards := (rewards ag2)[k := e], episode := episode ag2 + 1\<rparr>"
      by (auto simp: Let_def split: if_splits)
    then show ?thesis using ih fr kn True by simp
  next
    case False
    with r2 [unfolded p] kn len have ag': "ag' = ag2\<lparr>rewards := (rewards ag2)[k := e],
        cumul_rewards := (cumul_rewards ag2)[k := e + cumul_rewards ag2 ! (k - 1)],
        episode := episode ag2 + 1\<rparr>"
      by (auto simp: Let_def split: if_splits)
    have c: "cumul_rewards ag2 = cumul_rewards ag1" and rw: "rewards ag2 = rewards ag1"
      using fr by simp_all
    have rec: "\<forall>kk. 1 \<le> kk \<and> kk < Suc k \<longrightarrow>
         cumul_rewards ag' ! kk = rewards ag' ! kk + cumul_rewards ag' ! (kk - 1)"
    proof (intro allI impI)
      fix kk assume kk: "1 \<le> kk \<and> kk < Suc k"
      show "cumul_rewards ag' ! kk = rewards ag' ! kk + cumul_rewards ag' ! (kk - 1)"
      proof (cases "kk = k")
        case True
        then show ?thesis using ag' kn len False by simp
      next
        case kf: False
        with kk have "kk < k" by simp
        then show ?thesis using ag' kn len kk ih c rw by (simp add: nth_list_update)
      qed
    qed
    show ?thesis using ag' ih fr kn False rec len by (simp add: nth_list_update)
  qed
qed

lemma cumul_sum:
  assumes "\<forall>kk. 1 \<le> kk \<and> kk < n \<longrightarrow> c ! kk = r ! kk + c ! (kk - 1)" and "c ! 0 = (0::real)"
    and "kk < n"
  shows "c ! kk = (\<Sum>j = 1..kk. r ! j)"
  using assms(3)
proof (induction kk)
  case 0
  then show ?case using assms(2) by simp
next
  case (Suc kk)
  then have "c ! Suc kk = r ! Suc kk + c ! kk" using assms(1) by simp
  with Suc show ?case by simp
qed

lemma fit_Inr:
  assumes "fit w ag = Inr (info, ag')"
  obtains ag1 where
    "fit_loop w (ag\<lparr>rewards := replicate (n_episodes ag) 0,
                      cumul_rewards := replicate (n_episodes ag) 0\<rparr>) (n_episodes ag) = Inr ag1"
    and "ag' = ag1\<lparr>Q_policy := Some (fst (backward_induction w (take (M ag1) (R_hat ag1))
                     (active_P (M ag1) (P_hat ag1)) (horizon ag1) (gamma ag1)))\<rparr>"
    and "info = (n_episodes ag1, rewards ag1)"
proof (cases "fit_loop w (ag\<lparr>rewards := replicate (n_episodes ag) 0,
                      cumul_rewards := replicate (n_episodes ag) 0\<rparr>) (n_episodes ag)")
  case (Inl e)
  with assms show ?thesis by (simp add: fit_def)
next
  case (Inr ag1)
  with assms have "ag' = ag1\<lparr>Q_policy := Some (fst (backward_induction w (take (M ag1) (R_hat ag1))
                     (active_P (M ag1) (P_hat ag1)) (horizon ag1) (gamma ag1)))\<rparr>"
    and "info = (n_episodes ag1, rewards ag1)"
    by (auto simp: fit_def split: prod.splits)
  with Inr that show ?thesis by blast
qed

text \<open>
  C9. When \<^verbatim>\<open>fit\<close> returns, the two reward arrays have \<open>n_episodes\<close> entries,
  \<open>_cumul_rewards[0]\<close> is \<open>0\<close> whatever the first episode paid, and
  \<open>_cumul_rewards[kk] = _rewards[kk] + _cumul_rewards[kk - 1]\<close> for every \<open>kk \<ge> 1\<close>; so
  \<open>_cumul_rewards[kk]\<close> is the sum of the rewards of the episodes \<open>1, \<dots>, kk\<close>, without
  episode \<open>0\<close>.
\<close>

theorem fit_cumul_rewards:
  assumes "fit w ag = Inr (info, ag')"
  shows "length (rewards ag') = n_episodes ag \<and> length (cumul_rewards ag') = n_episodes ag
       \<and> info = (n_episodes ag, rewards ag')
       \<and> (0 < n_episodes ag \<longrightarrow> cumul_rewards ag' ! 0 = 0)
       \<and> (\<forall>kk. 1 \<le> kk \<and> kk < n_episodes ag \<longrightarrow>
             cumul_rewards ag' ! kk = rewards ag' ! kk + cumul_rewards ag' ! (kk - 1))
       \<and> (\<forall>kk < n_episodes ag. cumul_rewards ag' ! kk = (\<Sum>j = 1..kk. rewards ag' ! j))"
proof -
  from assms obtain ag1 where
    l: "fit_loop w (ag\<lparr>rewards := replicate (n_episodes ag) 0,
                      cumul_rewards := replicate (n_episodes ag) 0\<rparr>) (n_episodes ag) = Inr ag1"
    and a: "ag' = ag1\<lparr>Q_policy := Some (fst (backward_induction w (take (M ag1) (R_hat ag1))
                     (active_P (M ag1) (P_hat ag1)) (horizon ag1) (gamma ag1)))\<rparr>"
    and i: "info = (n_episodes ag1, rewards ag1)"
    by (rule fit_Inr)
  have e: "rewards ag' = rewards ag1" "cumul_rewards ag' = cumul_rewards ag1"
    unfolding a by simp_all
  have inv: "length (rewards ag1) = n_episodes ag" "length (cumul_rewards ag1) = n_episodes ag"
    "0 < n_episodes ag \<longrightarrow> cumul_rewards ag1 ! 0 = 0"
    "\<forall>kk. 1 \<le> kk \<and> kk < n_episodes ag \<longrightarrow>
        cumul_rewards ag1 ! kk = rewards ag1 ! kk + cumul_rewards ag1 ! (kk - 1)"
    "n_episodes ag1 = n_episodes ag"
    using fit_loop_inv [OF l, of "n_episodes ag"] by simp_all
  have s: "\<forall>kk < n_episodes ag. cumul_rewards ag1 ! kk = (\<Sum>j = 1..kk. rewards ag1 ! j)"
  proof (intro allI impI)
    fix kk assume kk: "kk < n_episodes ag"
    then have "cumul_rewards ag1 ! 0 = 0" using inv(3) by simp
    then show "cumul_rewards ag1 ! kk = (\<Sum>j = 1..kk. rewards ag1 ! j)"
      using cumul_sum [OF inv(4) _ kk] by simp
  qed
  show ?thesis unfolding e i using inv s by simp
qed

theorem fit_cumul_rewards_witness:
  "fit demo_world (demo_agent 2 (1 / 100) 3)
     = Inr (fst (projr (fit demo_world (demo_agent 2 (1 / 100) 3))),
            snd (projr (fit demo_world (demo_agent 2 (1 / 100) 3))))
   \<and> rewards (snd (projr (fit demo_world (demo_agent 2 (1 / 100) 3)))) = [1, 1, 1]
   \<and> cumul_rewards (snd (projr (fit demo_world (demo_agent 2 (1 / 100) 3)))) = [0, 1, 2]
   \<and> cumul_rewards (snd (projr (fit demo_world (demo_agent 2 (1 / 100) 3)))) ! 0 = 0"
proof -
  let ?f = "fit demo_world (demo_agent 2 (1 / 100) 3)"
  have e: "rewards (snd (projr ?f)) = [1, 1, 1] \<and> cumul_rewards (snd (projr ?f)) = [0, 1, 2]
           \<and> (\<exists>x. ?f = Inr x)"
    by (simp add: ev)
  then have h: "?f = Inr (fst (projr ?f), snd (projr ?f))" by auto
  have n: "0 < n_episodes (demo_agent 2 (1 / 100) 3)" by (simp add: demo_agent_def reset_def)
  from fit_cumul_rewards [OF h] n e h show ?thesis by simp
qed

subsection \<open>The recommended policy\<close>

lemma scan_repr_error: "scan_repr m s lp reprs sc k = Inl e \<Longrightarrow> e = IndexError"
proof (induction k)
  case 0
  then show ?case by simp
next
  case (Suc k)
  show ?case
  proof (cases "scan_repr m s lp reprs sc k")
    case (Inl e')
    with Suc show ?thesis by simp
  next
    case (Inr p)
    obtain d i where "p = (d, i)" by (cases p) auto
    with Suc.prems Inr show ?thesis by (auto simp: Let_def split: if_splits)
  qed
qed

lemma map_to_repr_error: "map_to_repr w ag s acc = Inl e \<Longrightarrow> e = IndexError"
proof (cases "scan_repr (metric_lp w) s (lp_metric ag) (representative_states ag) (scaling ag) (M ag)")
  case (Inl e')
  assume "map_to_repr w ag s acc = Inl e"
  with Inl scan_repr_error [OF Inl] show ?thesis
    by (simp add: map_to_repr_def map_to_representative_def)
next
  case (Inr p)
  assume a: "map_to_repr w ag s acc = Inl e"
  obtain d i where "p = (d, i)" by (cases p) auto
  with a Inr show ?thesis
    by (auto simp: map_to_repr_def map_to_representative_def Let_def split: if_splits)
qed

lemma py_index_error: "py_index n i = Inl e \<Longrightarrow> e = IndexError"
  by (auto simp: py_index_def split: if_splits)

lemma greedy_error: "greedy g q hh r = Inl e \<Longrightarrow> e = IndexError \<or> e = ValueError"
proof -
  have q: "\<And>h. q_row q h r = Inl e \<Longrightarrow> e = IndexError"
  proof -
    fix h assume a: "q_row q h r = Inl e"
    show "e = IndexError"
    proof (cases "py_index (length q) h")
      case (Inl e')
      with a py_index_error [OF Inl] show ?thesis by (simp add: q_row_def)
    next
      case (Inr h')
      show ?thesis
      proof (cases "py_index (length (q ! h')) r")
        case (Inl e')
        with a Inr py_index_error [OF Inl] show ?thesis by (simp add: q_row_def)
      next
        case r': (Inr r')
        with a Inr show ?thesis by (simp add: q_row_def)
      qed
    qed
  qed
  have am: "\<And>row. argmax row = Inl e \<Longrightarrow> e = ValueError"
    by (auto simp: argmax_def split: if_splits)
  assume g: "greedy g q hh r = Inl e"
  show ?thesis
  proof (cases "g = 1")
    case True
    with g show ?thesis using q [of hh] am
      by (cases "q_row q hh r") (auto simp: greedy_def)
  next
    case False
    with g show ?thesis using q [of 0] am
      by (cases "q_row q 0 r") (auto simp: greedy_def)
  qed
qed

lemma policy_Some_error:
  assumes "Q_policy ag = Some q"
  shows "policy w ag s hh \<noteq> Inl AssertionError"
proof (cases "map_to_repr w ag s False")
  case (Inl e)
  with assms map_to_repr_error [OF Inl] show ?thesis by (simp add: policy_def)
next
  case (Inr p)
  obtain i ag1 where p: "p = (i, ag1)" by (cases p) auto
  show ?thesis
  proof (cases "greedy (gamma ag1) q hh i")
    case (Inl e)
    with assms Inr p greedy_error [OF Inl] show ?thesis by (auto simp: policy_def)
  next
    case r: (Inr a)
    with assms Inr p show ?thesis by (simp add: policy_def)
  qed
qed

lemma fit_loop_Q_policy:
  "fit_loop w ag k = Inr ag1 \<Longrightarrow> Q_policy ag1 = Q_policy ag"
proof (induction k arbitrary: ag1)
  case 0
  then show ?case by simp
next
  case (Suc k)
  from Suc.prems obtain ag2 where l: "fit_loop w ag k = Inr ag2"
    and r: "bnd (run_episode w ag2) (\<lambda>(episode_rewards, ag1).
       if \<not> k < length (rewards ag1) then Inl IndexError
       else
        (let ag2 = ag1\<lparr>rewards := (rewards ag1)[k := episode_rewards]\<rparr> in
         if k > 0 then
           (if \<not> k < length (cumul_rewards ag2) then Inl IndexError
            else Inr (ag2\<lparr>cumul_rewards :=
                            (cumul_rewards ag2)[k := episode_rewards + cumul_rewards ag2 ! (k - 1)],
                          episode := episode ag2 + 1\<rparr>))
         else Inr (ag2\<lparr>episode := episode ag2 + 1\<rparr>))) = Inr ag1"
    by (auto elim: bnd_InrE)
  from r obtain p where re: "run_episode w ag2 = Inr p"
    and r2: "(case p of (episode_rewards, ag1) \<Rightarrow>
       if \<not> k < length (rewards ag1) then Inl IndexError
       else
        (let ag2 = ag1\<lparr>rewards := (rewards ag1)[k := episode_rewards]\<rparr> in
         if k > 0 then
           (if \<not> k < length (cumul_rewards ag2) then Inl IndexError
            else Inr (ag2\<lparr>cumul_rewards :=
                            (cumul_rewards ag2)[k := episode_rewards + cumul_rewards ag2 ! (k - 1)],
                          episode := episode ag2 + 1\<rparr>))
         else Inr (ag2\<lparr>episode := episode ag2 + 1\<rparr>))) = Inr ag1"
    by (rule bnd_InrE)
  obtain e ag3 where p: "p = (e, ag3)" by (cases p) auto
  from r2 [unfolded p] have "Q_policy ag1 = Q_policy ag3"
    by (auto simp: Let_def split: if_splits)
  with run_episode_log [OF re [unfolded p]] Suc.IH [OF l] show ?case by simp
qed

text \<open>
  C10. \<^verbatim>\<open>policy\<close> raises \<^verbatim>\<open>AssertionError\<close> exactly when \<open>Q_policy\<close> is \<^verbatim>\<open>None\<close>.
  \<open>Q_policy\<close> is \<^verbatim>\<open>None\<close> after \<^verbatim>\<open>reset\<close> (with which the constructor ends), the episodes
  of \<^verbatim>\<open>fit\<close> leave it as it is, and the final solve assigns it: when \<^verbatim>\<open>fit\<close> has
  returned, \<open>Q_policy\<close> is set and \<^verbatim>\<open>policy\<close> does not raise that assertion.
\<close>

theorem policy_needs_fit:
  "Q_policy (reset ag) = None
   \<and> (policy w ag s hh = Inl AssertionError \<longleftrightarrow> Q_policy ag = None)
   \<and> (fit_loop w ag k = Inr ag1 \<longrightarrow> Q_policy ag1 = Q_policy ag)
   \<and> (fit w ag = Inr (info, ag') \<longrightarrow>
        Q_policy ag' \<noteq> None \<and> policy w ag' s hh \<noteq> Inl AssertionError)"
proof -
  have a: "Q_policy (reset ag) = None" by (simp add: reset_def)
  have b: "policy w ag s hh = Inl AssertionError \<longleftrightarrow> Q_policy ag = None"
  proof (cases "Q_policy ag")
    case None
    then show ?thesis by (simp add: policy_def)
  next
    case (Some q)
    with policy_Some_error [OF Some] show ?thesis by simp
  qed
  have c: "fit_loop w ag k = Inr ag1 \<longrightarrow> Q_policy ag1 = Q_policy ag"
    using fit_loop_Q_policy by blast
  have d: "Q_policy ag' \<noteq> None \<and> policy w ag' s hh \<noteq> Inl AssertionError"
    if f: "fit w ag = Inr (info, ag')"
  proof -
    from f obtain ag2 where "ag' = ag2\<lparr>Q_policy := Some (fst (backward_induction w
        (take (M ag2) (R_hat ag2)) (active_P (M ag2) (P_hat ag2)) (horizon ag2) (gamma ag2)))\<rparr>"
      by (rule fit_Inr)
    then obtain q where q: "Q_policy ag' = Some q" by simp
    with policy_Some_error [OF q] show ?thesis by simp
  qed
  show ?thesis using a b c d by blast
qed

theorem policy_needs_fit_witness:
  "policy demo_world (demo_agent 2 (1 / 100) 3) [1 / 2] 0 = Inl AssertionError
   \<and> fit demo_world (demo_agent 2 (1 / 100) 3)
       = Inr (fst (projr (fit demo_world (demo_agent 2 (1 / 100) 3))),
              snd (projr (fit demo_world (demo_agent 2 (1 / 100) 3))))
   \<and> policy demo_world (snd (projr (fit demo_world (demo_agent 2 (1 / 100) 3)))) [1 / 2] 0
       \<noteq> Inl AssertionError
   \<and> Q_policy (snd (projr (fit demo_world (demo_agent 2 (1 / 100) 3))))
       = Some [[[300 / 301, 0], [108 / 109, 0]]]"
proof -
  let ?ag = "demo_agent 2 (1 / 100) 3"
  let ?f = "fit demo_world ?ag"
  have e: "(\<exists>x. ?f = Inr x) \<and> Q_policy (snd (projr ?f)) = Some [[[300 / 301, 0], [108 / 109, 0]]]"
    by (simp add: ev)
  then have h: "?f = Inr (fst (projr ?f), snd (projr ?f))" by auto
  have n: "Q_policy ?ag = None" by (simp add: demo_agent_def reset_def)
  note t = policy_needs_fit [where w = demo_world and s = "[1 / 2]" and hh = 0 and ag = ?ag
             and info = "fst (projr ?f)" and ag' = "snd (projr ?f)"]
  from t n have p1: "policy demo_world ?ag [1 / 2] 0 = Inl AssertionError" by blast
  from t h have p2: "policy demo_world (snd (projr ?f)) [1 / 2] 0 \<noteq> Inl AssertionError" by blast
  from p1 p2 h e show ?thesis by simp
qed

subsection \<open>The reward tables given to the solvers\<close>

lemma update_row_shapes:
  assumes upd: "update_row m kf rs a d r n reprs lp sc bw bsf bet vm bt kt u (N, B, P, R)
                  = Inr (N', B', P', R')"
    and sh: "shaped cap na N" "shaped cap na B" "shaped cap na R"
      "length P = cap" "list_all (shaped na cap) P"
  shows "shaped cap na N' \<and> shaped cap na B' \<and> shaped cap na R'
         \<and> length P' = cap \<and> list_all (shaped na cap) P'"
proof -
  from upd obtain w b row x where
    iP: "in_table P u a" and n: "n \<le> length (P ! u ! a)"
    and N': "N' = set_cell N u a w" and B': "B' = set_cell B u a b"
    and P': "P' = set_cell P u a (map row [0..<n] @ drop n (P ! u ! a))"
    and R': "R' = set_cell R u a x"
    unfolding update_row_def
    by (auto simp: bnd_eq_Inr Let_def split: if_splits)
  from iP sh(5) have "length (P ! u ! a) = cap"
    by (auto simp: in_table_def shaped_def list_all_length)
  then have lr: "length (map row [0..<n] @ drop n (P ! u ! a)) = cap" using n by simp
  show ?thesis
    unfolding N' B' P' R' using sh shaped_P_set_cell [OF sh(4,5) lr]
    by (simp add: shaped_set_cell)
qed

lemma update_loop_shapes:
  assumes "update_loop m kf rs a d r n reprs lp sc bw bsf bet vm bt kt (N, B, P, R) j
             = Inr (N', B', P', R')"
    and sh: "shaped cap na N" "shaped cap na B" "shaped cap na R"
      "length P = cap" "list_all (shaped na cap) P"
  shows "shaped cap na N' \<and> shaped cap na B' \<and> shaped cap na R'
         \<and> length P' = cap \<and> list_all (shaped na cap) P'"
  using assms(1)
proof (induction j arbitrary: N' B' P' R')
  case 0
  then show ?case using sh by simp
next
  case (Suc j)
  from Suc.prems obtain t where t: "update_loop m kf rs a d r n reprs lp sc bw bsf bet vm bt kt
        (N, B, P, R) j = Inr t"
    and u: "update_row m kf rs a d r n reprs lp sc bw bsf bet vm bt kt j t = Inr (N', B', P', R')"
    by (auto simp: bnd_eq_Inr)
  obtain N1 B1 P1 R1 where t1: "t = (N1, B1, P1, R1)" by (cases t) auto
  from Suc.IH [OF t [unfolded t1]] have s1: "shaped cap na N1" "shaped cap na B1"
    "shaped cap na R1" "length P1 = cap" "list_all (shaped na cap) P1"
    by simp_all
  show ?case by (rule update_row_shapes [OF u [unfolded t1] s1])
qed

lemma update_model_shapes:
  assumes "update_model m kf rs a nxt r n reprs lp sc bw bsf bet vm bt kt N B P R
             = Inr (N', B', P', R')"
    and sh: "shaped cap na N" "shaped cap na B" "shaped cap na R"
      "length P = cap" "list_all (shaped na cap) P"
  shows "shaped cap na N' \<and> shaped cap na B' \<and> shaped cap na R'
         \<and> length P' = cap \<and> list_all (shaped na cap) P'"
proof -
  from assms(1) obtain k where
    l: "update_loop m kf rs a ((replicate n 0)[k := 1]) r n reprs lp sc bw bsf bet vm bt kt
              (N, B, P, R) n = Inr (N', B', P', R')"
    by (auto simp: update_model_def bnd_eq_Inr Let_def)
  show ?thesis by (rule update_loop_shapes [OF l sh])
qed

lemma map_to_repr_keeps_wf:
  assumes m: "map_to_repr w ag s acc = Inr (idx, ag')" and wf: "wf_agent ag"
  shows "wf_agent ag'"
proof -
  from wf have n: "M ag \<le> length (representative_states ag)"
    by (simp add: wf_agent_def)
  from map_to_representative_cases [OF n, of "metric_lp w" s "lp_metric ag" "min_dist ag"
      "scaling ag" acc]
  show ?thesis
  proof
    assume "\<exists>j. map_to_representative (metric_lp w) s (lp_metric ag) (representative_states ag)
          (M ag) (min_dist ag) (scaling ag) acc = Inr (j, representative_states ag)
        \<and> - 1 \<le> j \<and> j < int (M ag) \<and> (0 < M ag \<longrightarrow> 0 \<le> j)
        \<and> \<not> ((\<forall>i<M ag. min_dist ag < metric_lp w s (representative_states ag ! i) (lp_metric ag) (scaling ag))
             \<and> M ag < length (representative_states ag) \<and> acc)"
    then obtain j where e: "map_to_representative (metric_lp w) s (lp_metric ag)
          (representative_states ag) (M ag) (min_dist ag) (scaling ag) acc
          = Inr (j, representative_states ag)"
      and j: "j < int (M ag)"
      by auto
    have "map_to_repr w ag s acc = Inr (j, ag)"
      using e j by (simp add: map_to_repr_def Let_def)
    with m wf show ?thesis by simp
  next
    assume c: "map_to_representative (metric_lp w) s (lp_metric ag) (representative_states ag)
          (M ag) (min_dist ag) (scaling ag) acc
          = Inr (int (M ag), (representative_states ag)[M ag := s])
        \<and> (\<forall>i<M ag. min_dist ag < metric_lp w s (representative_states ag ! i) (lp_metric ag) (scaling ag))
        \<and> M ag < length (representative_states ag) \<and> acc"
    then have "map_to_repr w ag s acc
        = Inr (int (M ag), ag\<lparr>representative_states := (representative_states ag)[M ag := s],
                               M := M ag + 1\<rparr>)"
      by (auto simp: map_to_repr_def Let_def)
    moreover have "wf_agent (ag\<lparr>representative_states := (representative_states ag)[M ag := s],
                               M := M ag + 1\<rparr>)"
      using wf c by (simp add: wf_agent_def)
    ultimately show ?thesis using m by simp
  qed
qed

lemma update_keeps_wf:
  assumes u: "update w ag s a s' r = Inr ag'" and wf: "wf_agent ag"
  shows "wf_agent ag'"
proof -
  from u obtain i1 ag1 i2 ag2 N' B' P' R' where
    m1: "map_to_repr w ag s True = Inr (i1, ag1)" and
    m2: "map_to_repr w ag1 s' True = Inr (i2, ag2)" and
    um: "update_model (metric_lp w) (kernel_func w) i1 a i2 r (M ag2) (representative_states ag2)
           (lp_metric ag2) (scaling ag2) (bandwidth ag2) (bonus_scale_factor ag2) (beta ag2)
           (v_max ag2) (bonus_type ag2) (kernel_type ag2) (N_sa ag2) (B_sa ag2) (P_hat ag2)
           (R_hat ag2) = Inr (N', B', P', R')" and
    ag': "ag' = ag2\<lparr>N_sa := N', B_sa := B', P_hat := P', R_hat := R'\<rparr>"
    by (auto simp: update_def bnd_eq_Inr)
  have wf2: "wf_agent ag2"
    by (rule map_to_repr_keeps_wf [OF m2 map_to_repr_keeps_wf [OF m1 wf]])
  then have sh: "shaped (max_repr ag2) (A ag2) (N_sa ag2)" "shaped (max_repr ag2) (A ag2) (B_sa ag2)"
    "shaped (max_repr ag2) (A ag2) (R_hat ag2)" "length (P_hat ag2) = max_repr ag2"
    "list_all (shaped (A ag2) (max_repr ag2)) (P_hat ag2)"
    and n: "M ag2 \<le> max_repr ag2" and reprs: "length (representative_states ag2) = max_repr ag2"
    by (simp_all add: wf_agent_def)
  from update_model_shapes [OF um sh] n reprs show ?thesis
    unfolding ag' by (simp add: wf_agent_def)
qed

lemma get_action_keeps_wf:
  assumes "get_action w ag s hh = Inr (a, ag')" and wf: "wf_agent ag"
  shows "wf_agent ag'"
proof (cases "Q ag")
  case None
  with assms show ?thesis by (simp add: get_action_def)
next
  case (Some q)
  with assms obtain p where p: "map_to_repr w ag s False = Inr p"
    and r: "(case p of (repr_state, ag1) \<Rightarrow>
               bnd (greedy (gamma ag1) q hh repr_state) (\<lambda>a. Inr (a, ag1))) = Inr (a, ag')"
    by (auto simp: get_action_def elim: bnd_InrE)
  obtain i ag1 where p1: "p = (i, ag1)" by (cases p) auto
  from r have "ag' = ag1" by (auto simp: p1 elim!: bnd_InrE)
  with map_to_repr_keeps_wf [OF p [unfolded p1] wf] show ?thesis by simp
qed

lemma episode_steps_keeps_wf:
  assumes "episode_steps w (ag, s, x) k = Inr (ag', s', x')" and "wf_agent ag"
  shows "wf_agent ag'"
  using assms(1)
proof (induction k arbitrary: ag' s' x')
  case 0
  then show ?case using assms(2) by simp
next
  case (Suc k)
  from Suc.prems obtain t where t: "episode_steps w (ag, s, x) k = Inr t"
    and r: "(case t of (ag, state, episode_rewards) \<Rightarrow>
     bnd (get_action w ag state (int k)) (\<lambda>(action, ag1).
       case env_step w (env ag1) action of ((next_state, reward, done), e) \<Rightarrow>
         bnd (update w (ag1\<lparr>env := e\<rparr>) state action next_state reward) (\<lambda>ag2.
           Inr (ag2, next_state, episode_rewards + reward)))) = Inr (ag', s', x')"
    by (auto elim: bnd_InrE)
  obtain ag0 s0 x0 where t0: "t = (ag0, s0, x0)" by (cases t) auto
  note ih = Suc.IH [OF t [unfolded t0]]
  from r [unfolded t0] obtain p where g: "get_action w ag0 s0 (int k) = Inr p"
    and r2: "(case p of (action, ag1) \<Rightarrow>
       case env_step w (env ag1) action of ((next_state, reward, done), e) \<Rightarrow>
         bnd (update w (ag1\<lparr>env := e\<rparr>) s0 action next_state reward) (\<lambda>ag2.
           Inr (ag2, next_state, x0 + reward))) = Inr (ag', s', x')"
    by (auto elim: bnd_InrE)
  obtain a ag1 where p: "p = (a, ag1)" by (cases p) auto
  obtain ns rw dn e where st: "env_step w (env ag1) a = ((ns, rw, dn), e)"
    by (cases "env_step w (env ag1) a") auto
  from r2 [unfolded p] st obtain ag2 where
    u: "update w (ag1\<lparr>env := e\<rparr>) s0 a ns rw = Inr ag2" and e: "ag' = ag2"
    by (auto elim!: bnd_InrE)
  have "wf_agent (ag1\<lparr>env := e\<rparr>)"
    using get_action_keeps_wf [OF g [unfolded p] ih] by (simp add: wf_agent_def)
  from update_keeps_wf [OF u this] e show ?case by simp
qed

lemma add_bonus_active:
  assumes "shaped cap na R" and "shaped cap na B" and "m \<le> cap"
  shows "shaped m na (add_bonus (take m R) (take m B))
       \<and> (\<forall>i<m. \<forall>j<na. add_bonus (take m R) (take m B) ! i ! j
             = (case B ! i ! j of Val b \<Rightarrow> Val (R ! i ! j + b) | NaN \<Rightarrow> NaN))"
  using assms
  by (simp add: shaped_def add_bonus_def list_all_length)

lemma take_active:
  assumes "shaped cap na R" and "m \<le> cap"
  shows "shaped m na (take m R) \<and> (\<forall>i<m. \<forall>j<na. take m R ! i ! j = R ! i ! j)"
  using assms by (simp add: shaped_def list_all_length)

lemma run_episode_Inr:
  assumes r: "run_episode w ag = Inr (x, ag')"
  obtains ag1 s1 q where
    "episode_steps w (ag\<lparr>env := snd (env_reset w (env ag))\<rparr>,
        fst (env_reset w (env ag)), 0) (horizon ag) = Inr (ag1, s1, x)"
    and "Q ag1 = Some q"
    and "ag' = ag1\<lparr>
             Q := Some (write_view (M ag1)
                    (fst (backward_induction_in_place w (view (M ag1) q) (view (M ag1) (V ag1))
                            (add_bonus (take (M ag1) (R_hat ag1)) (take (M ag1) (B_sa ag1)))
                            (active_P (M ag1) (P_hat ag1)) (horizon ag1) (gamma ag1) (v_max ag1)))
                    q),
             V := write_view (M ag1)
                    (snd (backward_induction_in_place w (view (M ag1) q) (view (M ag1) (V ag1))
                            (add_bonus (take (M ag1) (R_hat ag1)) (take (M ag1) (B_sa ag1)))
                            (active_P (M ag1) (P_hat ag1)) (horizon ag1) (gamma ag1) (v_max ag1)))
                    (V ag1)\<rparr>"
proof (cases "episode_steps w (ag\<lparr>env := snd (env_reset w (env ag))\<rparr>,
                                 fst (env_reset w (env ag)), 0) (horizon ag)")
  case (Inl e)
  with r show ?thesis by (simp add: run_episode_def split: prod.splits)
next
  case (Inr t)
  obtain ag1 s1 x1 where t: "t = (ag1, s1, x1)" by (cases t) auto
  show ?thesis
  proof (cases "Q ag1")
    case None
    with r Inr t show ?thesis by (simp add: run_episode_def split: prod.splits)
  next
    case (Some q)
    with r Inr t that [of ag1 s1 q] show ?thesis
      by (auto simp: run_episode_def split: prod.splits)
  qed
qed

lemma run_episode_keeps_wf:
  assumes r: "run_episode w ag = Inr (x, ag')" and wf: "wf_agent ag"
  shows "wf_agent ag'"
proof -
  from r obtain ag1 s1 q where
    es: "episode_steps w (ag\<lparr>env := snd (env_reset w (env ag))\<rparr>,
        fst (env_reset w (env ag)), 0) (horizon ag) = Inr (ag1, s1, x)"
    and e: "ag' = ag1\<lparr>
             Q := Some (write_view (M ag1)
                    (fst (backward_induction_in_place w (view (M ag1) q) (view (M ag1) (V ag1))
                            (add_bonus (take (M ag1) (R_hat ag1)) (take (M ag1) (B_sa ag1)))
                            (active_P (M ag1) (P_hat ag1)) (horizon ag1) (gamma ag1) (v_max ag1)))
                    q),
             V := write_view (M ag1)
                    (snd (backward_induction_in_place w (view (M ag1) q) (view (M ag1) (V ag1))
                            (add_bonus (take (M ag1) (R_hat ag1)) (take (M ag1) (B_sa ag1)))
                            (active_P (M ag1) (P_hat ag1)) (horizon ag1) (gamma ag1) (v_max ag1)))
                    (V ag1)\<rparr>"
    by (rule run_episode_Inr)
  have "wf_agent (ag\<lparr>env := snd (env_reset w (env ag))\<rparr>)"
    using wf by (simp add: wf_agent_def)
  from episode_steps_keeps_wf [OF es this] show ?thesis
    unfolding e by (simp add: wf_agent_def)
qed

lemma fit_loop_keeps_wf:
  "fit_loop w ag k = Inr ag1 \<Longrightarrow> wf_agent ag \<Longrightarrow> wf_agent ag1"
proof (induction k arbitrary: ag1)
  case 0
  then show ?case by simp
next
  case (Suc k)
  from Suc.prems(1) obtain ag2 where l: "fit_loop w ag k = Inr ag2"
    and r: "bnd (run_episode w ag2) (\<lambda>(episode_rewards, ag1).
       if \<not> k < length (rewards ag1) then Inl IndexError
       else
        (let ag2 = ag1\<lparr>rewards := (rewards ag1)[k := episode_rewards]\<rparr> in
         if k > 0 then
           (if \<not> k < length (cumul_rewards ag2) then Inl IndexError
            else Inr (ag2\<lparr>cumul_rewards :=
                            (cumul_rewards ag2)[k := episode_rewards + cumul_rewards ag2 ! (k - 1)],
                          episode := episode ag2 + 1\<rparr>))
         else Inr (ag2\<lparr>episode := episode ag2 + 1\<rparr>))) = Inr ag1"
    by (auto elim: bnd_InrE)
  from r obtain p where re: "run_episode w ag2 = Inr p"
    and r2: "(case p of (episode_rewards, ag1) \<Rightarrow>
       if \<not> k < length (rewards ag1) then Inl IndexError
       else
        (let ag2 = ag1\<lparr>rewards := (rewards ag1)[k := episode_rewards]\<rparr> in
         if k > 0 then
           (if \<not> k < length (cumul_rewards ag2) then Inl IndexError
            else Inr (ag2\<lparr>cumul_rewards :=
                            (cumul_rewards ag2)[k := episode_rewards + cumul_rewards ag2 ! (k - 1)],
                          episode := episode ag2 + 1\<rparr>))
         else Inr (ag2\<lparr>episode := episode ag2 + 1\<rparr>))) = Inr ag1"
    by (rule bnd_InrE)
  obtain e ag3 where p: "p = (e, ag3)" by (cases p) auto
  have wf3: "wf_agent ag3"
    by (rule run_episode_keeps_wf [OF re [unfolded p] Suc.IH [OF l Suc.prems(2)]])
  from r2 [unfolded p] wf3 show ?case
    by (auto simp: Let_def wf_agent_def split: if_splits)
qed

lemma add_bonus_table:
  assumes "shaped cap na R" and "shaped cap na B" and "m \<le> cap"
  shows "add_bonus (take m R) (take m B)
       = map (\<lambda>i. map (\<lambda>j. case B ! i ! j of Val b \<Rightarrow> Val (R ! i ! j + b) | NaN \<Rightarrow> NaN) [0..<na])
             [0..<m]"
proof -
  let ?t = "add_bonus (take m R) (take m B)"
  from add_bonus_active [OF assms] have s: "shaped m na ?t"
    and v: "\<And>i j. i < m \<Longrightarrow> j < na \<Longrightarrow>
          ?t ! i ! j = (case B ! i ! j of Val b \<Rightarrow> Val (R ! i ! j + b) | NaN \<Rightarrow> NaN)"
    by blast+
  from s have l: "length ?t = m" and r: "\<And>i. i < m \<Longrightarrow> length (?t ! i) = na"
    by (simp_all add: shaped_def list_all_length)
  show ?thesis
  proof (rule nth_equalityI)
    show "length ?t = length (map (\<lambda>i. map (\<lambda>j. case B ! i ! j of Val b \<Rightarrow> Val (R ! i ! j + b)
                 | NaN \<Rightarrow> NaN) [0..<na]) [0..<m])"
      using l by simp
  next
    fix i assume "i < length ?t"
    then have i: "i < m" using l by simp
    have "?t ! i = map (\<lambda>j. case B ! i ! j of Val b \<Rightarrow> Val (R ! i ! j + b) | NaN \<Rightarrow> NaN) [0..<na]"
      by (rule nth_equalityI) (simp_all add: r [OF i] v [OF i] split: fval.splits)
    then show "?t ! i = map (\<lambda>i. map (\<lambda>j. case B ! i ! j of Val b \<Rightarrow> Val (R ! i ! j + b)
                 | NaN \<Rightarrow> NaN) [0..<na]) [0..<m] ! i"
      using i by (simp split: fval.splits)
  qed
qed

lemma take_table:
  assumes "shaped cap na R" and "m \<le> cap"
  shows "take m R = map (\<lambda>i. map (\<lambda>j. R ! i ! j) [0..<na]) [0..<m]"
proof (rule nth_equalityI)
  show "length (take m R) = length (map (\<lambda>i. map (\<lambda>j. R ! i ! j) [0..<na]) [0..<m])"
    using assms by (simp add: shaped_def)
next
  fix i assume "i < length (take m R)"
  then have i: "i < m" by simp
  with assms have "length (R ! i) = na" by (simp add: shaped_def list_all_length)
  then have "R ! i = map (\<lambda>j. R ! i ! j) [0..<na]"
    by (intro nth_equalityI) simp_all
  then show "take m R ! i = map (\<lambda>i. map (\<lambda>j. R ! i ! j) [0..<na]) [0..<m] ! i"
    using i by simp
qed

text \<open>
  C6. On an agent whose tables have the shapes that \<^verbatim>\<open>reset\<close> allocates, the solve at the end
  of every episode is given, as its reward argument, the table with \<open>M\<close> rows and \<open>A\<close>
  columns whose entry \<open>(i, j)\<close> is \<open>R_hat[i, j] + B_sa[i, j]\<close>, and writes the exploration
  table \<open>Q\<close> (and \<open>V\<close>) while leaving \<open>Q_policy\<close> as it is; the episodes of \<^verbatim>\<open>fit\<close> never
  assign \<open>Q_policy\<close>; and the one solve at the end of \<^verbatim>\<open>fit\<close>, after the loop over the
  episodes, is given the table with \<open>M\<close> rows and \<open>A\<close> columns whose entry \<open>(i, j)\<close> is
  \<open>R_hat[i, j]\<close> alone, and its result is \<open>Q_policy\<close>. (A bonus entry that is not a number
  makes the sum not a number.)
\<close>

theorem solve_reward_tables:
  assumes "wf_agent ag"
  shows "(run_episode w ag = Inr (x, ag') \<longrightarrow>
      (\<exists>ag1 s1 q. episode_steps w (ag\<lparr>env := snd (env_reset w (env ag))\<rparr>,
                                 fst (env_reset w (env ag)), 0) (horizon ag) = Inr (ag1, s1, x)
         \<and> Q ag1 = Some q
         \<and> ag' = ag1\<lparr>
             Q := Some (write_view (M ag1)
                    (fst (backward_induction_in_place w (view (M ag1) q) (view (M ag1) (V ag1))
                            (map (\<lambda>i. map (\<lambda>j. case B_sa ag1 ! i ! j of
                                                  Val b \<Rightarrow> Val (R_hat ag1 ! i ! j + b)
                                                | NaN \<Rightarrow> NaN) [0..<A ag1]) [0..<M ag1])
                            (active_P (M ag1) (P_hat ag1)) (horizon ag1) (gamma ag1) (v_max ag1)))
                    q),
             V := write_view (M ag1)
                    (snd (backward_induction_in_place w (view (M ag1) q) (view (M ag1) (V ag1))
                            (map (\<lambda>i. map (\<lambda>j. case B_sa ag1 ! i ! j of
                                                  Val b \<Rightarrow> Val (R_hat ag1 ! i ! j + b)
                                                | NaN \<Rightarrow> NaN) [0..<A ag1]) [0..<M ag1])
                            (active_P (M ag1) (P_hat ag1)) (horizon ag1) (gamma ag1) (v_max ag1)))
                    (V ag1)\<rparr>
         \<and> R_hat ag' = R_hat ag1 \<and> B_sa ag' = B_sa ag1 \<and> M ag' = M ag1 \<and> A ag' = A ag1
         \<and> Q_policy ag' = Q_policy ag))
   \<and> (fit_loop w ag k = Inr agk \<longrightarrow> Q_policy agk = Q_policy ag)
   \<and> (fit w ag = Inr (info, ag'') \<longrightarrow>
      (\<exists>ag1. fit_loop w (ag\<lparr>rewards := replicate (n_episodes ag) 0,
                              cumul_rewards := replicate (n_episodes ag) 0\<rparr>) (n_episodes ag)
               = Inr ag1
         \<and> ag'' = ag1\<lparr>Q_policy := Some (fst (backward_induction w
                         (map (\<lambda>i. map (\<lambda>j. R_hat ag1 ! i ! j) [0..<A ag1]) [0..<M ag1])
                         (active_P (M ag1) (P_hat ag1)) (horizon ag1) (gamma ag1)))\<rparr>
         \<and> Q_policy ag'' = Some (fst (backward_induction w
                         (map (\<lambda>i. map (\<lambda>j. R_hat ag'' ! i ! j) [0..<A ag'']) [0..<M ag''])
                         (active_P (M ag'') (P_hat ag'')) (horizon ag'') (gamma ag'')))))"
proof -
  have a: "\<exists>ag1 s1 q. episode_steps w (ag\<lparr>env := snd (env_reset w (env ag))\<rparr>,
                                 fst (env_reset w (env ag)), 0) (horizon ag) = Inr (ag1, s1, x)
         \<and> Q ag1 = Some q
         \<and> ag' = ag1\<lparr>
             Q := Some (write_view (M ag1)
                    (fst (backward_induction_in_place w (view (M ag1) q) (view (M ag1) (V ag1))
                            (map (\<lambda>i. map (\<lambda>j. case B_sa ag1 ! i ! j of
                                                  Val b \<Rightarrow> Val (R_hat ag1 ! i ! j + b)
                                                | NaN \<Rightarrow> NaN) [0..<A ag1]) [0..<M ag1])
                            (active_P (M ag1) (P_hat ag1)) (horizon ag1) (gamma ag1) (v_max ag1)))
                    q),
             V := write_view (M ag1)
                    (snd (backward_induction_in_place w (view (M ag1) q) (view (M ag1) (V ag1))
                            (map (\<lambda>i. map (\<lambda>j. case B_sa ag1 ! i ! j of
                                                  Val b \<Rightarrow> Val (R_hat ag1 ! i ! j + b)
                                                | NaN \<Rightarrow> NaN) [0..<A ag1]) [0..<M ag1])
                            (active_P (M ag1) (P_hat ag1)) (horizon ag1) (gamma ag1) (v_max ag1)))
                    (V ag1)\<rparr>
         \<and> R_hat ag' = R_hat ag1 \<and> B_sa ag' = B_sa ag1 \<and> M ag' = M ag1 \<and> A ag' = A ag1
         \<and> Q_policy ag' = Q_policy ag"
    if r: "run_episode w ag = Inr (x, ag')"
  proof -
    from r obtain ag1 s1 q where
      es: "episode_steps w (ag\<lparr>env := snd (env_reset w (env ag))\<rparr>,
          fst (env_reset w (env ag)), 0) (horizon ag) = Inr (ag1, s1, x)"
      and q: "Q ag1 = Some q"
      and e: "ag' = ag1\<lparr>
             Q := Some (write_view (M ag1)
                    (fst (backward_induction_in_place w (view (M ag1) q) (view (M ag1) (V ag1))
                            (add_bonus (take (M ag1) (R_hat ag1)) (take (M ag1) (B_sa ag1)))
                            (active_P (M ag1) (P_hat ag1)) (horizon ag1) (gamma ag1) (v_max ag1)))
                    q),
             V := write_view (M ag1)
                    (snd (backward_induction_in_place w (view (M ag1) q) (view (M ag1) (V ag1))
                            (add_bonus (take (M ag1) (R_hat ag1)) (take (M ag1) (B_sa ag1)))
                            (active_P (M ag1) (P_hat ag1)) (horizon ag1) (gamma ag1) (v_max ag1)))
                    (V ag1)\<rparr>"
      by (rule run_episode_Inr)
    have "wf_agent (ag\<lparr>env := snd (env_reset w (env ag))\<rparr>)"
      using assms by (simp add: wf_agent_def)
    from episode_steps_keeps_wf [OF es this] have wf1: "wf_agent ag1" .
    then have t: "add_bonus (take (M ag1) (R_hat ag1)) (take (M ag1) (B_sa ag1))
        = map (\<lambda>i. map (\<lambda>j. case B_sa ag1 ! i ! j of Val b \<Rightarrow> Val (R_hat ag1 ! i ! j + b)
                                | NaN \<Rightarrow> NaN) [0..<A ag1]) [0..<M ag1]"
      by (intro add_bonus_table [where cap = "max_repr ag1"]) (simp_all add: wf_agent_def)
    from e have f: "R_hat ag' = R_hat ag1 \<and> B_sa ag' = B_sa ag1 \<and> M ag' = M ag1 \<and> A ag' = A ag1"
      by simp
    from run_episode_log [OF r] have p: "Q_policy ag' = Q_policy ag" by simp
    from es q e [unfolded t] f p show ?thesis by blast
  qed
  have c: "Q_policy agk = Q_policy ag" if "fit_loop w ag k = Inr agk"
    using that by (rule fit_loop_Q_policy)
  have b: "\<exists>ag1. fit_loop w (ag\<lparr>rewards := replicate (n_episodes ag) 0,
                              cumul_rewards := replicate (n_episodes ag) 0\<rparr>) (n_episodes ag)
               = Inr ag1
         \<and> ag'' = ag1\<lparr>Q_policy := Some (fst (backward_induction w
                         (map (\<lambda>i. map (\<lambda>j. R_hat ag1 ! i ! j) [0..<A ag1]) [0..<M ag1])
                         (active_P (M ag1) (P_hat ag1)) (horizon ag1) (gamma ag1)))\<rparr>
         \<and> Q_policy ag'' = Some (fst (backward_induction w
                         (map (\<lambda>i. map (\<lambda>j. R_hat ag'' ! i ! j) [0..<A ag'']) [0..<M ag''])
                         (active_P (M ag'') (P_hat ag'')) (horizon ag'') (gamma ag'')))"
    if f: "fit w ag = Inr (info, ag'')"
  proof -
    from f obtain ag1 where l: "fit_loop w (ag\<lparr>rewards := replicate (n_episodes ag) 0,
                              cumul_rewards := replicate (n_episodes ag) 0\<rparr>) (n_episodes ag)
               = Inr ag1"
      and e: "ag'' = ag1\<lparr>Q_policy := Some (fst (backward_induction w (take (M ag1) (R_hat ag1))
                         (active_P (M ag1) (P_hat ag1)) (horizon ag1) (gamma ag1)))\<rparr>"
      by (rule fit_Inr)
    have "wf_agent (ag\<lparr>rewards := replicate (n_episodes ag) 0,
                       cumul_rewards := replicate (n_episodes ag) 0\<rparr>)"
      using assms by (simp add: wf_agent_def)
    from fit_loop_keeps_wf [OF l this] have wf1: "wf_agent ag1" .
    then have t: "take (M ag1) (R_hat ag1)
        = map (\<lambda>i. map (\<lambda>j. R_hat ag1 ! i ! j) [0..<A ag1]) [0..<M ag1]"
      by (intro take_table [where cap = "max_repr ag1"]) (simp_all add: wf_agent_def)
    note e' = e [unfolded t]
    from e' have "Q_policy ag'' = Some (fst (backward_induction w
                         (map (\<lambda>i. map (\<lambda>j. R_hat ag'' ! i ! j) [0..<A ag'']) [0..<M ag''])
                         (active_P (M ag'') (P_hat ag'')) (horizon ag'') (gamma ag'')))"
      by simp
    with l e' show ?thesis by blast
  qed
  show ?thesis using a b c by blast
qed

theorem solve_reward_tables_witness:
  "run_episode demo_world (demo_agent 2 (1 / 100) 3)
     = Inr (fst (projr (run_episode demo_world (demo_agent 2 (1 / 100) 3))),
            snd (projr (run_episode demo_world (demo_agent 2 (1 / 100) 3))))
   \<and> R_hat (snd (projr (run_episode demo_world (demo_agent 2 (1 / 100) 3))))
       = [[100 / 101, 0], [36 / 37, 0]]
   \<and> B_sa (snd (projr (run_episode demo_world (demo_agent 2 (1 / 100) 3))))
       = [[Val 1, Val 1], [Val (101 / 37), Val 1]]
   \<and> Q (snd (projr (run_episode demo_world (demo_agent 2 (1 / 100) 3))))
       = Some [[[201 / 101, 1], [137 / 37, 1]]]
   \<and> Q_policy (snd (projr (run_episode demo_world (demo_agent 2 (1 / 100) 3)))) = None
   \<and> fit demo_world (demo_agent 2 (1 / 100) 3)
       = Inr (fst (projr (fit demo_world (demo_agent 2 (1 / 100) 3))),
              snd (projr (fit demo_world (demo_agent 2 (1 / 100) 3))))
   \<and> R_hat (snd (projr (fit demo_world (demo_agent 2 (1 / 100) 3))))
       = [[300 / 301, 0], [108 / 109, 0]]
   \<and> Q_policy (snd (projr (fit demo_world (demo_agent 2 (1 / 100) 3))))
       = Some [[[300 / 301, 0], [108 / 109, 0]]]"
proof -
  let ?ag = "demo_agent 2 (1 / 100) 3"
  let ?r = "run_episode demo_world ?ag"
  let ?f = "fit demo_world ?ag"
  have wf: "wf_agent ?ag" unfolding demo_agent_def by (rule reset_wf)
  have n: "Q_policy ?ag = None" by (simp add: demo_agent_def reset_def)
  have e1: "(\<exists>x. ?r = Inr x)
      \<and> R_hat (snd (projr ?r)) = [[100 / 101, 0], [36 / 37, 0]]
      \<and> B_sa (snd (projr ?r)) = [[Val 1, Val 1], [Val (101 / 37), Val 1]]
      \<and> Q (snd (projr ?r)) = Some [[[201 / 101, 1], [137 / 37, 1]]]"
    by (simp add: ev)
  then have h1: "?r = Inr (fst (projr ?r), snd (projr ?r))" by auto
  have e2: "(\<exists>x. ?f = Inr x)
      \<and> R_hat (snd (projr ?f)) = [[300 / 301, 0], [108 / 109, 0]]
      \<and> M (snd (projr ?f)) = 2 \<and> A (snd (projr ?f)) = 2 \<and> horizon (snd (projr ?f)) = 1"
    by (simp add: ev)
  then have h2: "?f = Inr (fst (projr ?f), snd (projr ?f))" by auto
  note t = solve_reward_tables [OF wf, where w = demo_world and x = "fst (projr ?r)"
         and ag' = "snd (projr ?r)" and info = "fst (projr ?f)" and ag'' = "snd (projr ?f)"]
  from t h1 have p1: "Q_policy (snd (projr ?r)) = Q_policy ?ag" by blast
  from t h2 have "Q_policy (snd (projr ?f)) = Some (fst (backward_induction demo_world
       (map (\<lambda>i. map (\<lambda>j. R_hat (snd (projr ?f)) ! i ! j) [0..<A (snd (projr ?f))])
            [0..<M (snd (projr ?f))])
       (active_P (M (snd (projr ?f))) (P_hat (snd (projr ?f))))
       (horizon (snd (projr ?f))) (gamma (snd (projr ?f)))))"
    by blast
  also have "\<dots> = Some [[[300 / 301, 0], [108 / 109, 0]]]"
    using e2 by (simp add: demo_world_def upt_rec)
  finally have p2: "Q_policy (snd (projr ?f)) = Some [[[300 / 301, 0], [108 / 109, 0]]]" .
  from p1 n p2 h1 h2 e1 e2 show ?thesis by simp
qed

subsection \<open>An unknown bonus type\<close>

lemma compute_bonus_unknown:
  "bt \<noteq> ''simplified_bernstein'' \<Longrightarrow> compute_bonus sw bet bsf vm bt = Inl NotImplementedError"
  by (simp add: compute_bonus_def Let_def)

lemma update_row_unknown_wf:
  assumes sh: "shaped cap na N" "shaped cap na B" "shaped cap na R"
      "length P = cap" "list_all (shaped na cap) P"
    and mi: "mass_inv bet n N P"
    and u: "u < n" and n: "n \<le> cap" and reprs: "length reprs = cap"
    and rs: "0 \<le> rs" "rs < int n" and a: "a < na"
    and bw: "bw \<noteq> 0" and bet: "0 < bet"
    and kf: "\<forall>z. \<exists>x. kf z kt = Inr x \<and> 0 \<le> x"
    and bt: "bt \<noteq> ''simplified_bernstein''"
  shows "update_row m kf rs a d r n reprs lp sc bw bsf bet vm bt kt u (N, B, P, R)
           = Inl NotImplementedError"
proof -
  have uc: "u < cap" using u n by simp
  have px: "py_index (length reprs) rs = Inr (nat rs)"
    using rs n reprs by (intro py_index_nonneg) simp_all
  obtain w where w: "kf (m (reprs ! nat rs) (reprs ! u) lp sc / bw) kt = Inr w" and w0: "0 \<le> w"
    using kf by blast
  have iN: "in_table N u a" and iR: "in_table R u a"
    using sh uc a by (simp_all add: shaped_in_table)
  have iP: "in_table P u a" and lP: "length (P ! u ! a) = cap"
    using P_row_length [OF sh(5), of u a] sh(4) uc a by simp_all
  have "row_mass bet n (N ! u ! a) (P ! u ! a)" using mass_inv_cell [OF mi iN] by simp
  then have Nv: "0 \<le> N ! u ! a" by (simp add: row_mass_def)
  have c: "bet + N ! u ! a + w \<noteq> 0" using bet Nv w0 by linarith
  show ?thesis
    using px uc reprs bw w iN iR iP lP n c compute_bonus_unknown [OF bt]
    by (simp add: update_row_def Let_def)
qed

lemma update_loop_unknown_wf:
  assumes sh: "shaped cap na N" "shaped cap na B" "shaped cap na R"
      "length P = cap" "list_all (shaped na cap) P"
    and mi: "mass_inv bet n N P"
    and n0: "0 < n" and n: "n \<le> cap" and reprs: "length reprs = cap"
    and rs: "0 \<le> rs" "rs < int n" and a: "a < na"
    and bw: "bw \<noteq> 0" and bet: "0 < bet"
    and kf: "\<forall>z. \<exists>x. kf z kt = Inr x \<and> 0 \<le> x"
    and bt: "bt \<noteq> ''simplified_bernstein''"
  shows "update_loop m kf rs a d r n reprs lp sc bw bsf bet vm bt kt (N, B, P, R) (Suc j)
           = Inl NotImplementedError"
proof (induction j)
  case 0
  have "update_row m kf rs a d r n reprs lp sc bw bsf bet vm bt kt 0 (N, B, P, R)
           = Inl NotImplementedError"
    by (rule update_row_unknown_wf; fact)
  then show ?case by simp
next
  case (Suc j)
  then show ?case
    by (simp del: update_loop.simps(2) add: update_loop.simps(2) [where u = "Suc j"])
qed

lemma update_model_unknown_wf:
  assumes sh: "shaped cap na N" "shaped cap na B" "shaped cap na R"
      "length P = cap" "list_all (shaped na cap) P"
    and mi: "mass_inv bet n N P"
    and n: "n \<le> cap" and reprs: "length reprs = cap"
    and rs: "0 \<le> rs" "rs < int n" and nxt: "0 \<le> nxt" "nxt < int n" and a: "a < na"
    and bw: "bw \<noteq> 0" and bet: "0 < bet"
    and kf: "\<forall>z. \<exists>x. kf z kt = Inr x \<and> 0 \<le> x"
    and bt: "bt \<noteq> ''simplified_bernstein''"
  shows "update_model m kf rs a nxt r n reprs lp sc bw bsf bet vm bt kt N B P R
           = Inl NotImplementedError"
proof -
  have px: "py_index n nxt = Inr (nat nxt)" using nxt by (intro py_index_nonneg)
  have n0: "0 < n" using nxt by simp
  then obtain n' where n': "n = Suc n'" by (cases n) auto
  have "update_loop m kf rs a ((replicate n 0)[nat nxt := 1]) r n reprs lp sc bw bsf bet vm bt kt
          (N, B, P, R) (Suc n') = Inl NotImplementedError"
    by (rule update_loop_unknown_wf; fact)
  then show ?thesis
    unfolding update_model_def px bnd_Inr Let_def n' [symmetric] .
qed

lemma update_unknown_wf:
  assumes wf: "wf_agent ag" and cap: "0 < max_repr ag"
    and mi: "mass_inv (beta ag) (M ag) (N_sa ag) (P_hat ag)"
    and a: "a < A ag" and bet: "0 < beta ag" and bw: "bandwidth ag \<noteq> 0"
    and bt: "bonus_type ag \<noteq> ''simplified_bernstein''"
    and kf: "\<forall>z. \<exists>x. kernel_func w z (kernel_type ag) = Inr x \<and> 0 \<le> x"
  shows "update w ag s a s' r = Inl NotImplementedError"
proof -
  from map_to_repr_wf [OF wf cap, of w s] obtain i1 ag1 where
    m1: "map_to_repr w ag s True = Inr (i1, ag1)" and i1: "0 \<le> i1" "i1 < int (M ag1)"
    and le1: "M ag \<le> M ag1" and wf1: "wf_agent ag1"
    and f1: "max_repr ag1 = max_repr ag" "A ag1 = A ag" "beta ag1 = beta ag"
      "bandwidth ag1 = bandwidth ag" "bonus_type ag1 = bonus_type ag"
      "kernel_type ag1 = kernel_type ag" "N_sa ag1 = N_sa ag" "P_hat ag1 = P_hat ag"
    by blast
  have cap1: "0 < max_repr ag1" using cap f1 by simp
  from map_to_repr_wf [OF wf1 cap1, of w s'] obtain i2 ag2 where
    m2: "map_to_repr w ag1 s' True = Inr (i2, ag2)" and i2: "0 \<le> i2" "i2 < int (M ag2)"
    and le2: "M ag1 \<le> M ag2" and wf2: "wf_agent ag2"
    and g2: "max_repr ag2 = max_repr ag1" "A ag2 = A ag1" "beta ag2 = beta ag1"
      "bandwidth ag2 = bandwidth ag1" "bonus_type ag2 = bonus_type ag1"
      "kernel_type ag2 = kernel_type ag1" "N_sa ag2 = N_sa ag1" "P_hat ag2 = P_hat ag1"
    by blast
  have f2: "max_repr ag2 = max_repr ag" "A ag2 = A ag" "beta ag2 = beta ag"
    "bandwidth ag2 = bandwidth ag" "bonus_type ag2 = bonus_type ag"
    "kernel_type ag2 = kernel_type ag" "N_sa ag2 = N_sa ag" "P_hat ag2 = P_hat ag"
    using f1 g2 by simp_all
  have sh: "shaped (max_repr ag2) (A ag2) (N_sa ag2)" "shaped (max_repr ag2) (A ag2) (B_sa ag2)"
    "shaped (max_repr ag2) (A ag2) (R_hat ag2)" "length (P_hat ag2) = max_repr ag2"
    "list_all (shaped (A ag2) (max_repr ag2)) (P_hat ag2)"
    and n: "M ag2 \<le> max_repr ag2" and reprs: "length (representative_states ag2) = max_repr ag2"
    using wf2 by (simp_all add: wf_agent_def)
  have le: "M ag \<le> M ag2" using le1 le2 by simp
  have mi2: "mass_inv (beta ag2) (M ag2) (N_sa ag2) (P_hat ag2)"
    unfolding f2 by (rule mass_inv_mono [OF mi le])
  have rs: "0 \<le> i1" "i1 < int (M ag2)" using i1 le2 by simp_all
  have a2: "a < A ag2" using a f2 by simp
  have bw2: "bandwidth ag2 \<noteq> 0" and bet2: "0 < beta ag2"
    and kf2: "\<forall>z. \<exists>x. kernel_func w z (kernel_type ag2) = Inr x \<and> 0 \<le> x"
    and bt2: "bonus_type ag2 \<noteq> ''simplified_bernstein''"
    using bw bet kf bt f2 by simp_all
  have um: "update_model (metric_lp w) (kernel_func w) i1 a i2 r (M ag2) (representative_states ag2)
        (lp_metric ag2) (scaling ag2) (bandwidth ag2) (bonus_scale_factor ag2) (beta ag2)
        (v_max ag2) (bonus_type ag2) (kernel_type ag2) (N_sa ag2) (B_sa ag2) (P_hat ag2)
        (R_hat ag2) = Inl NotImplementedError"
    by (rule update_model_unknown_wf; fact)
  show ?thesis
    unfolding update_def m1 bnd_Inr prod.case m2 um by simp
qed

lemma get_action_fresh:
  assumes "M ag = 0" and "Q ag = Some (replicate h (replicate c (replicate na 0)))"
    and "0 < h" and "0 < c" and "0 < na"
  shows "get_action w ag s 0 = Inr (0, ag)"
proof -
  have g: "get_action w ag s 0 =
      bnd (greedy (gamma ag) (replicate h (replicate c (replicate na 0))) 0 (- 1))
        (\<lambda>a. Inr (a, ag))"
    using assms(1,2) by (simp add: get_action_def map_to_repr_empty)
  have gr: "greedy (gamma ag) (replicate h (replicate c (replicate na 0))) 0 (- 1)
      = bnd (q_row (replicate h (replicate c (replicate na 0))) 0 (- 1)) argmax"
    by (simp add: greedy_def)
  show ?thesis
    using assms(3,4,5) unfolding g gr q_row_minus_one by (simp add: py_index_def argmax_zeros)
qed

lemma episode_steps_fresh_unknown:
  assumes wf: "wf_agent ag" and cap: "0 < max_repr ag" and na: "0 < A ag"
    and mi: "mass_inv (beta ag) (M ag) (N_sa ag) (P_hat ag)"
    and m0: "M ag = 0" and q: "Q ag = Some (replicate h (replicate (max_repr ag) (replicate (A ag) 0)))"
    and h: "0 < h"
    and bet: "0 < beta ag" and bw: "bandwidth ag \<noteq> 0"
    and bt: "bonus_type ag \<noteq> ''simplified_bernstein''"
    and kf: "\<forall>z. \<exists>x. kernel_func w z (kernel_type ag) = Inr x \<and> 0 \<le> x"
  shows "episode_steps w (ag, s, x) (Suc k) = Inl NotImplementedError"
proof (induction k)
  case 0
  have ga: "get_action w ag s 0 = Inr (0, ag)"
    by (rule get_action_fresh [OF m0 q h cap na])
  obtain ns rw dn e where st: "env_step w (env ag) 0 = ((ns, rw, dn), e)"
    by (cases "env_step w (env ag) 0") auto
  have wf': "wf_agent (ag\<lparr>env := e\<rparr>)" using wf by (simp add: wf_agent_def)
  have u: "update w (ag\<lparr>env := e\<rparr>) s 0 ns rw = Inl NotImplementedError"
    using wf' cap mi na bet bw bt kf by (intro update_unknown_wf) simp_all
  show ?case using ga st u by simp
next
  case (Suc k)
  then show ?case
    by (simp del: episode_steps.simps(2) add: episode_steps.simps(2) [of w _ "Suc k"])
qed

lemma fit_fresh_unknown:
  assumes "0 < n_episodes ag" and "0 < horizon ag" and "0 < max_repr ag" and "0 < A ag"
    and "0 < beta ag" and "bandwidth ag \<noteq> 0"
    and "bonus_type ag \<noteq> ''simplified_bernstein''"
    and "\<forall>z. \<exists>x. kernel_func w z (kernel_type ag) = Inr x \<and> 0 \<le> x"
  shows "fit w (reset ag) = Inl NotImplementedError"
proof -
  let ?n = "n_episodes (reset ag)"
  let ?ag0 = "(reset ag)\<lparr>rewards := replicate ?n 0, cumul_rewards := replicate ?n 0\<rparr>"
  obtain s e where re: "env_reset w (env ?ag0) = (s, e)"
    by (cases "env_reset w (env ?ag0)") auto
  let ?ag1 = "?ag0\<lparr>env := e\<rparr>"
  obtain h where h: "horizon ?ag0 = Suc h" using assms(2) by (cases "horizon ag") (auto simp: reset_def)
  obtain n where n: "?n = Suc n" using assms(1) by (cases "n_episodes ag") (auto simp: reset_def)
  have wf: "wf_agent ?ag1" using reset_wf [of ag] by (simp add: wf_agent_def)
  have mi: "mass_inv (beta ?ag1) (M ?ag1) (N_sa ?ag1) (P_hat ?ag1)"
    using reset_mass_inv [of ag] by simp
  have c: "0 < max_repr ?ag1" "0 < A ?ag1" "M ?ag1 = 0"
    "Q ?ag1 = Some (replicate (horizon ag) (replicate (max_repr ?ag1) (replicate (A ?ag1) 0)))"
    "0 < horizon ag" "0 < beta ?ag1" "bandwidth ?ag1 \<noteq> 0"
    "bonus_type ?ag1 \<noteq> ''simplified_bernstein''"
    "\<forall>z. \<exists>x. kernel_func w z (kernel_type ?ag1) = Inr x \<and> 0 \<le> x"
    using assms by (simp_all add: reset_def)
  have es: "episode_steps w (?ag1, s, 0) (Suc h) = Inl NotImplementedError"
    by (rule episode_steps_fresh_unknown [OF wf c(1,2) mi c(3,4,5,6,7,8,9)])
  have r: "run_episode w ?ag0 = Inl NotImplementedError"
    unfolding run_episode_def re prod.case h es by simp
  have l: "fit_loop w ?ag0 (Suc k) = Inl NotImplementedError" for k
  proof (induction k)
    case 0
    show ?case using r by simp
  next
    case (Suc k)
    then show ?case
      by (simp del: fit_loop.simps(2) add: fit_loop.simps(2) [of w _ "Suc k"])
  qed
  have f: "fit_loop w ?ag0 ?n = Inl NotImplementedError"
    using l [of n] by (simp only: n [symmetric])
  show ?thesis unfolding fit_def f by simp
qed

lemma kernel_func_spec_total:
  "\<forall>z. \<exists>x. kernel_func_spec z ''epanechnikov'' = Inr x \<and> 0 \<le> x"
  by (simp add: kernel_func_spec_def)

text \<open>
  C7. \<^verbatim>\<open>compute_bonus\<close> raises \<^verbatim>\<open>NotImplementedError\<close> exactly when \<open>bonus_type\<close> is not
  \<^verbatim>\<open>simplified_bernstein\<close>, and it raises an error of any kind exactly when the type is
  unknown or \<open>n = beta + sum_weights\<close> is zero: with the known type and \<open>n = 0\<close> the division
  raises \<^verbatim>\<open>ZeroDivisionError\<close>, and with the known type and \<open>n > 0\<close> the value of the formula is
  returned. The unknown type is not noticed at construction (\<^verbatim>\<open>reset\<close>, with which the
  constructor ends, keeps \<open>bonus_type\<close> as it is); it is fatal at the first use and nothing
  catches it: on an agent in a state that \<^verbatim>\<open>reset\<close> and the model updates leave (tables of
  the allocated shapes, transition rows carrying the mass of their weights) with at least one
  row of capacity, \<open>beta > 0\<close>, a non-zero bandwidth and a kernel that returns non-negative
  weights, every \<^verbatim>\<open>_update\<close> with an action below \<open>A\<close> raises \<^verbatim>\<open>NotImplementedError\<close>, and
  \<^verbatim>\<open>fit\<close> on a freshly reset agent with at least one episode of at least one step and at
  least one action raises \<^verbatim>\<open>NotImplementedError\<close>.
\<close>

theorem unknown_bonus_type_fatal:
  "(compute_bonus sw bet bsf vm bt = Inl NotImplementedError \<longleftrightarrow> bt \<noteq> ''simplified_bernstein'')
   \<and> ((\<exists>e. compute_bonus sw bet bsf vm bt = Inl e)
        \<longleftrightarrow> bt \<noteq> ''simplified_bernstein'' \<or> bet + sw = 0)
   \<and> (bt = ''simplified_bernstein'' \<and> bet + sw = 0 \<longrightarrow>
        compute_bonus sw bet bsf vm bt = Inl ZeroDivisionError)
   \<and> (bt = ''simplified_bernstein'' \<and> 0 < bet + sw \<longrightarrow>
        compute_bonus sw bet bsf vm bt
          = Inr (Val (bsf * sqrt (1 / (bet + sw)) + (1 + bet) * vm / (bet + sw))))
   \<and> bonus_type (reset ag) = bonus_type ag
   \<and> (bonus_type ag \<noteq> ''simplified_bernstein'' \<and> wf_agent ag \<and> 0 < max_repr ag
        \<and> mass_inv (beta ag) (M ag) (N_sa ag) (P_hat ag) \<and> a < A ag
        \<and> 0 < beta ag \<and> bandwidth ag \<noteq> 0
        \<and> (\<forall>z. \<exists>x. kernel_func w z (kernel_type ag) = Inr x \<and> 0 \<le> x) \<longrightarrow>
        update w ag s a s' r = Inl NotImplementedError)
   \<and> (bonus_type ag \<noteq> ''simplified_bernstein'' \<and> 0 < n_episodes ag \<and> 0 < horizon ag
        \<and> 0 < max_repr ag \<and> 0 < A ag \<and> 0 < beta ag \<and> bandwidth ag \<noteq> 0
        \<and> (\<forall>z. \<exists>x. kernel_func w z (kernel_type ag) = Inr x \<and> 0 \<le> x) \<longrightarrow>
        fit w (reset ag) = Inl NotImplementedError)"
proof -
  have c: "(compute_bonus sw bet bsf vm bt = Inl NotImplementedError
             \<longleftrightarrow> bt \<noteq> ''simplified_bernstein'')
   \<and> ((\<exists>e. compute_bonus sw bet bsf vm bt = Inl e)
        \<longleftrightarrow> bt \<noteq> ''simplified_bernstein'' \<or> bet + sw = 0)
   \<and> (bt = ''simplified_bernstein'' \<and> bet + sw = 0 \<longrightarrow>
        compute_bonus sw bet bsf vm bt = Inl ZeroDivisionError)
   \<and> (bt = ''simplified_bernstein'' \<and> 0 < bet + sw \<longrightarrow>
        compute_bonus sw bet bsf vm bt
          = Inr (Val (bsf * sqrt (1 / (bet + sw)) + (1 + bet) * vm / (bet + sw))))"
    by (simp add: compute_bonus_def Let_def)
  have k: "bonus_type (reset ag) = bonus_type ag" by (simp add: reset_def)
  have u: "update w ag s a s' r = Inl NotImplementedError"
    if "bonus_type ag \<noteq> ''simplified_bernstein'' \<and> wf_agent ag \<and> 0 < max_repr ag
        \<and> mass_inv (beta ag) (M ag) (N_sa ag) (P_hat ag) \<and> a < A ag
        \<and> 0 < beta ag \<and> bandwidth ag \<noteq> 0
        \<and> (\<forall>z. \<exists>x. kernel_func w z (kernel_type ag) = Inr x \<and> 0 \<le> x)"
    using that by (intro update_unknown_wf) blast+
  have f: "fit w (reset ag) = Inl NotImplementedError"
    if "bonus_type ag \<noteq> ''simplified_bernstein'' \<and> 0 < n_episodes ag \<and> 0 < horizon ag
        \<and> 0 < max_repr ag \<and> 0 < A ag \<and> 0 < beta ag \<and> bandwidth ag \<noteq> 0
        \<and> (\<forall>z. \<exists>x. kernel_func w z (kernel_type ag) = Inr x \<and> 0 \<le> x)"
    using that by (intro fit_fresh_unknown) blast+
  show ?thesis using c k u f by blast
qed

theorem compute_bonus_zero_counterexample:
  "compute_bonus 0 0 1 1 ''simplified_bernstein'' = Inl ZeroDivisionError"
  by (simp add: compute_bonus_def)

theorem unknown_bonus_type_fatal_witness:
  "compute_bonus 3 1 1 1 ''simplified_bernstein'' = Inr (Val 1)
   \<and> compute_bonus 3 1 1 1 ''hoeffding'' = Inl NotImplementedError
   \<and> compute_bonus (- 1) 1 1 1 ''simplified_bernstein'' = Inl ZeroDivisionError
   \<and> bonus_type (reset ((demo_agent 2 1 3)\<lparr>bonus_type := ''hoeffding''\<rparr>)) = ''hoeffding''
   \<and> update demo_world (reset ((demo_agent 2 1 3)\<lparr>bonus_type := ''hoeffding''\<rparr>))
        [1 / 10] 0 [9 / 10] 1 = Inl NotImplementedError
   \<and> fit demo_world (reset ((demo_agent 2 1 3)\<lparr>bonus_type := ''hoeffding''\<rparr>))
       = Inl NotImplementedError"
proof -
  let ?ag = "(demo_agent 2 1 3)\<lparr>bonus_type := ''hoeffding''\<rparr>"
  have k: "\<forall>z. \<exists>x. kernel_func demo_world z (kernel_type ?ag) = Inr x \<and> 0 \<le> x"
    using kernel_func_spec_total by (simp add: demo_world_def demo_agent_def reset_def)
  have k': "\<forall>z. \<exists>x. kernel_func demo_world z (kernel_type (reset ?ag)) = Inr x \<and> 0 \<le> x"
    using kernel_func_spec_total by (simp add: demo_world_def demo_agent_def reset_def)
  have c: "bonus_type ?ag \<noteq> ''simplified_bernstein'' \<and> 0 < n_episodes ?ag \<and> 0 < horizon ?ag
      \<and> 0 < max_repr ?ag \<and> 0 < A ?ag \<and> 0 < beta ?ag \<and> bandwidth ?ag \<noteq> 0"
    by (simp add: demo_agent_def reset_def)
  have c': "bonus_type (reset ?ag) \<noteq> ''simplified_bernstein'' \<and> 0 < max_repr (reset ?ag)
      \<and> (0::nat) < A (reset ?ag) \<and> 0 < beta (reset ?ag) \<and> bandwidth (reset ?ag) \<noteq> 0"
    by (simp add: demo_agent_def reset_def)
  have p1: "(0::real) < 1 + 3" and p2: "''hoeffding'' \<noteq> ''simplified_bernstein''"
    and p3: "(1::real) + - 1 = 0" by simp_all
  have v: "(1::real) * sqrt (1 / (1 + 3)) + (1 + 1) * 1 / (1 + 3) = 1"
    by (simp add: real_sqrt_divide)
  from unknown_bonus_type_fatal [where sw = 3 and bet = 1 and bsf = 1 and vm = 1
      and bt = "''simplified_bernstein''" and ag = ?ag and w = demo_world] p1
  have "compute_bonus 3 1 1 1 ''simplified_bernstein''
      = Inr (Val (1 * sqrt (1 / (1 + 3)) + (1 + 1) * 1 / (1 + 3)))"
    by blast
  then have b1: "compute_bonus 3 1 1 1 ''simplified_bernstein'' = Inr (Val 1)"
    unfolding v .
  from unknown_bonus_type_fatal [where sw = 3 and bet = 1 and bsf = 1 and vm = 1
      and bt = "''hoeffding''" and ag = ?ag and w = demo_world] p2
  have b2: "compute_bonus 3 1 1 1 ''hoeffding'' = Inl NotImplementedError"
    by blast
  from unknown_bonus_type_fatal [where sw = "- 1" and bet = 1 and bsf = 1 and vm = 1
      and bt = "''simplified_bernstein''" and ag = ?ag and w = demo_world] p3
  have b3: "compute_bonus (- 1) 1 1 1 ''simplified_bernstein'' = Inl ZeroDivisionError"
    by blast
  note t = unknown_bonus_type_fatal [where ag = ?ag and w = demo_world]
  from t c k have f: "fit demo_world (reset ?ag) = Inl NotImplementedError" by blast
  from t c have r: "bonus_type (reset ?ag) = ''hoeffding''" by simp
  note t' = unknown_bonus_type_fatal [where ag = "reset ?ag" and w = demo_world and a = 0
      and s = "[1 / 10]" and s' = "[9 / 10]" and r = 1]
  from t' c' k' reset_wf [of ?ag] reset_mass_inv [of ?ag]
  have u: "update demo_world (reset ?ag) [1 / 10] 0 [9 / 10] 1 = Inl NotImplementedError"
    by blast
  from b1 b2 b3 r u f show ?thesis by (simp only: simp_thms)
qed

end
